theory Spec2Isabelle
  imports Complex_Main "HOL-Library.AList" "HOL-Library.Log_Nat"
begin

section \<open>Data model of the streaming service\<close>

text \<open>
  The TypeScript interfaces of \<^verbatim>\<open>server/streamingService.ts\<close> and
  \<^verbatim>\<open>server/musicGeneration.ts\<close> become records. A JavaScript \<^verbatim>\<open>number\<close>
  that holds seconds, milliseconds or a count is an \<^typ>\<open>int\<close>; a \<^verbatim>\<open>Date\<close> is its
  \<^verbatim>\<open>getTime()\<close> value in milliseconds; an optional field is an \<^typ>\<open>'a option\<close>.
\<close>

datatype trackType = meditation | sleep

record MusicGenerationOptions =
  prompt :: string
  duration :: int
  trackType :: trackType
  moodTags :: "string list"
  outputPath :: "string option"

record GeneratedSegment =
  seg_id :: string
  seg_audioPath :: string
  seg_duration :: int
  seg_prompt :: string
  seg_generatedAt :: int

record SynthesizedAudio =
  aff_id :: string
  aff_audioPath :: string
  aff_text :: string
  aff_duration :: int
  aff_synthesizedAt :: int

record StreamingSession =
  session_id :: string
  userId :: string
  trackId :: int
  isActive :: bool
  startTime :: int
  currentPosition :: int
  totalDuration :: int
  affirmationInterval :: int
  lastAffirmationTime :: int
  musicSegments :: "GeneratedSegment list"
  affirmations :: "SynthesizedAudio list"
  currentSegmentIndex :: int
  bufferSize :: int

record StreamingOptions =
  opt_trackId :: int
  opt_userId :: string
  opt_affirmationInterval :: "int option"
  opt_bufferSize :: "int option"
  opt_segmentDuration :: "int option"

text \<open>The fields of the track row that the service reads (\<^verbatim>\<open>trackData: any\<close>).\<close>

record TrackData =
  track_duration :: int
  track_trackType :: trackType
  track_moodTags :: "string list option"
  track_affirmations :: "string list"

text \<open>
  What is thrown: the four \<^verbatim>\<open>Error\<close>s of the service, a failure of the generator, and
  the \<^verbatim>\<open>ERR_UNHANDLED_ERROR\<close> of \<^verbatim>\<open>EventEmitter.emit\<close>. A promise is fulfilled, or it
  is rejected with what was thrown.
\<close>

datatype error =
  SessionNotFound
  | SessionNotFoundOrInactive
  | SegmentNotFound
  | AffirmationNotFound
  | GenerationFailure
  | UnhandledErrorEvent

datatype outcome = Fulfilled | Rejected error

text \<open>
  \<^verbatim>\<open>x || d\<close> on an optional number: \<^verbatim>\<open>undefined\<close> and \<^verbatim>\<open>0\<close> are falsy and give
  the default, every other number (a negative one too) is kept.
\<close>

definition or_default :: "int option \<Rightarrow> int \<Rightarrow> int" where
  "or_default x d = (case x of None \<Rightarrow> d | Some v \<Rightarrow> if v = 0 then d else v)"

section \<open>Music generation adapter\<close>

text \<open>
  What one run of the external generator gives back is an input of the model: it fails,
  or it produces a file, and then the fresh \<^verbatim>\<open>uuidv4()\<close>, the randomly chosen prompt
  and the clock are the three values of \<open>Generated\<close>.
\<close>

datatype generation = Failed | Generated string string int

definition outputDir :: string where
  "outputDir = ''/tmp/generated_music''"

definition path_join :: "string \<Rightarrow> string \<Rightarrow> string" where
  "path_join dir file = dir @ ''/'' @ file"

definition generateMusicSegment ::
  "MusicGenerationOptions \<Rightarrow> generation \<Rightarrow> error + GeneratedSegment" where
  "generateMusicSegment options g =
     (case g of
        Failed \<Rightarrow> Inl GenerationFailure
      | Generated segmentId chosen now \<Rightarrow>
          Inr \<lparr> seg_id = segmentId,
                seg_audioPath =
                  (case outputPath options of
                     None \<Rightarrow> path_join outputDir (segmentId @ ''.wav'')
                   | Some p \<Rightarrow> if p = [] then path_join outputDir (segmentId @ ''.wav'') else p),
                seg_duration = duration options,
                seg_prompt = chosen,
                seg_generatedAt = now \<rparr>)"

text \<open>
  \<^verbatim>\<open>Math.ceil(a / b)\<close> on numbers that hold integers. A JavaScript number is an
  IEEE 754 binary64 value, and \<^verbatim>\<open>a / b\<close> is the exact quotient rounded to the nearest
  value with a 53-bit significand, ties to the even one: \<open>exponent p q\<close> is the binary
  exponent of \<open>p / q\<close>, the spacing of the values near the quotient is
  \<open>2 ^ (exponent - 52)\<close>, and the quotient is rounded to a multiple of it. The exponent
  range is taken as unbounded: the quotient of two doubles that hold integers cannot
  overflow, and where it is subnormal its ceiling is the same before and after rounding.
  A negative zero is the integer 0, and like it it is falsy. For \<open>b = 0\<close> JavaScript
  gives an infinity or NaN; the only caller then runs its loop zero times and never reads
  the value.
\<close>

definition pow2 :: "int \<Rightarrow> real" where
  "pow2 e = (if 0 \<le> e then 2 ^ nat e else 1 / 2 ^ nat (- e))"

definition round_half_even :: "real \<Rightarrow> int" where
  "round_half_even x =
     (let f = \<lfloor>x\<rfloor>; r = x - of_int f
      in if r < 1 / 2 then f else if 1 / 2 < r then f + 1 else if even f then f else f + 1)"

definition exponent :: "int \<Rightarrow> int \<Rightarrow> int" where
  "exponent p q =
     (let e = bitlen p - bitlen q in if pow2 e * of_int q \<le> of_int p then e else e - 1)"

definition binary64_div :: "int \<Rightarrow> int \<Rightarrow> real" where
  "binary64_div a b =
     (if a = 0 then 0
      else (let ulp = pow2 (exponent \<bar>a\<bar> \<bar>b\<bar> - 52)
            in of_int (round_half_even (of_int a / of_int b / ulp)) * ulp))"

definition ceil_div :: "int \<Rightarrow> int \<Rightarrow> int" where
  "ceil_div a b = \<lceil>binary64_div a b\<rceil>"

text \<open>
  The loop of \<^verbatim>\<open>generateStreamingSegments\<close>. For iteration \<open>i\<close> the environment
  \<open>env i\<close> gives the output path (it contains a fresh uuid) and the outcome of the
  generator. A failed segment is logged and skipped.
\<close>

function streamingLoop ::
  "MusicGenerationOptions \<Rightarrow> int \<Rightarrow> int \<Rightarrow> (int \<Rightarrow> string \<times> generation) \<Rightarrow> int
     \<Rightarrow> GeneratedSegment list \<Rightarrow> GeneratedSegment list" where
  "streamingLoop options segmentDuration segmentCount env i segments =
     (if i < segmentCount then
        (case generateMusicSegment
                (options\<lparr> duration := segmentDuration, outputPath := Some (fst (env i)) \<rparr>)
                (snd (env i)) of
           Inr segment \<Rightarrow>
             streamingLoop options segmentDuration segmentCount env (i + 1) (segments @ [segment])
         | Inl _ \<Rightarrow>
             streamingLoop options segmentDuration segmentCount env (i + 1) segments)
      else segments)"
  by pat_completeness auto
termination
  by (relation "measure (\<lambda>(options, segmentDuration, segmentCount, env, i, segments).
                   nat (segmentCount - i))") auto

declare streamingLoop.simps [simp del]

definition generateStreamingSegments ::
  "MusicGenerationOptions \<Rightarrow> int \<Rightarrow> (int \<Rightarrow> string \<times> generation) \<Rightarrow> GeneratedSegment list" where
  "generateStreamingSegments options segmentCount env =
     streamingLoop options (ceil_div (duration options) segmentCount) segmentCount env 0 []"

section \<open>The streaming service\<close>

text \<open>
  The service runs on one event loop. Its state is the table \<^verbatim>\<open>sessions\<close> (a
  \<^verbatim>\<open>Map\<close>, which iterates in insertion order, so an association list) and the session
  objects themselves. Session objects are shared by reference between the table and the
  suspended asynchronous calls that captured them, so they live in an explicit store
  \<open>heap\<close> and a reference is an index into it; objects are never deallocated. Three
  further components record what the service does to the outside: the notifications it
  emits, the \<^verbatim>\<open>fs.unlink\<close> calls it makes, and the asynchronous calls that are
  suspended at an \<^verbatim>\<open>await\<close>: the two background calls of a creation and the
  \<^verbatim>\<open>generateNextSegment\<close> of a position update wait for a generation adapter, and a
  \<^verbatim>\<open>stopSession\<close> waits in \<^verbatim>\<open>cleanupSession\<close> for the file system.

  A suspended \<^verbatim>\<open>stopSession\<close> remembers where it is. In the first loop of
  \<^verbatim>\<open>cleanupSession\<close> it holds the array it iterates and the index of the next element:
  the array is the one the session object still holds (\<open>Current\<close>: pushes and shifts of
  \<^verbatim>\<open>generateNextSegment\<close> are seen by the loop), or one that
  \<^verbatim>\<open>generateInitialSegments\<close> has replaced in the meantime (\<open>Earlier\<close>, with its
  elements). In the second loop it holds the array of affirmations, which is only ever
  replaced, and the next index. \<open>Finishing\<close> is a call whose cleanup had no file to
  unlink and which waits at the \<^verbatim>\<open>await\<close> of \<^verbatim>\<open>stopSession\<close> itself.
\<close>

datatype event =
  SegmentsReady string "GeneratedSegment list"
  | AffirmationsReady string "SynthesizedAudio list"
  | PlayAffirmation string SynthesizedAudio
  | NewSegmentReady string GeneratedSegment
  | SessionStopped string
  | ErrorEvent string

datatype array_ref = Current | Earlier "GeneratedSegment list"

datatype stage =
  Segments array_ref nat
  | Affirmations "SynthesizedAudio list" nat
  | Finishing

datatype task =
  InitialSegments nat TrackData int
  | AffirmationsFor nat "string list"
  | NextSegment nat
  | Cleanup nat string stage

record service =
  heap :: "StreamingSession list"
  sessions :: "(string \<times> nat) list"
  inflight :: "task list"
  events :: "event list"
  unlinked :: "string list"

definition initial :: service where
  "initial = \<lparr> heap = [], sessions = [], inflight = [], events = [], unlinked = [] \<rparr>"

text \<open>
  Reading and writing a session object through its reference. A reference comes from an
  allocation only; the invariants \<open>registry_ok\<close> and \<open>tasks_ok\<close> below show that in
  every run each reference held by the table or by a suspended call is allocated.
\<close>

definition deref :: "service \<Rightarrow> nat \<Rightarrow> StreamingSession" where
  "deref st r = heap st ! r"

definition modify :: "nat \<Rightarrow> (StreamingSession \<Rightarrow> StreamingSession) \<Rightarrow> service \<Rightarrow> service" where
  "modify r f st = st\<lparr> heap := (heap st)[r := f (heap st ! r)] \<rparr>"

text \<open>
  \<^verbatim>\<open>this.emit(...)\<close> adds the call to the log. The service is an \<^verbatim>\<open>EventEmitter\<close>,
  and the repository registers no listener on it: \<^verbatim>\<open>routes.ts\<close> only calls its methods.
  \<^verbatim>\<open>EventEmitter.emit\<close> returns when no listener is there, except for the event
  \<^verbatim>\<open>'error'\<close>: emitted with no listener for it, it throws \<^verbatim>\<open>ERR_UNHANDLED_ERROR\<close>.
  So \<open>emit e st\<close> is the state after the call, \<open>emit_throws e\<close> says whether the call
  throws, and \<open>emitted e\<close> is how an asynchronous body settles whose last statement is
  that call.
\<close>

definition emit :: "event \<Rightarrow> service \<Rightarrow> service" where
  "emit e st = st\<lparr> events := events st @ [e] \<rparr>"

definition emit_throws :: "event \<Rightarrow> bool" where
  "emit_throws e = (case e of ErrorEvent sessionId \<Rightarrow> True | _ \<Rightarrow> False)"

definition emitted :: "event \<Rightarrow> outcome" where
  "emitted e = (if emit_throws e then Rejected UnhandledErrorEvent else Fulfilled)"

text \<open>
  \<^verbatim>\<open>fs.unlink(path)\<close> inside its own \<^verbatim>\<open>try\<close>: the call is entered in the log. A
  failure is only written to the console, so the service continues in the same way
  whether the file was there or not.
\<close>

definition unlink :: "string \<Rightarrow> service \<Rightarrow> service" where
  "unlink p st = st\<lparr> unlinked := unlinked st @ [p] \<rparr>"

definition suspend :: "task \<Rightarrow> service \<Rightarrow> service" where
  "suspend t st = st\<lparr> inflight := inflight st @ [t] \<rparr>"

text \<open>\<^verbatim>\<open>xs[i]\<close> on a JavaScript array: \<^verbatim>\<open>undefined\<close> outside the array.\<close>

definition array_get :: "'a list \<Rightarrow> int \<Rightarrow> 'a option" where
  "array_get xs i = (if 0 \<le> i \<and> i < int (length xs) then Some (xs ! nat i) else None)"

subsection \<open>Creating a session\<close>

text \<open>
  \<^verbatim>\<open>createStreamingSession\<close> takes the fresh \<^verbatim>\<open>uuidv4()\<close> and the clock as
  arguments. The two background calls it starts without awaiting them run up to their first
  \<^verbatim>\<open>await\<close> and are then suspended; the rest of each body is the function of the same
  name below, applied when the adapter answers. The result is the reference of the new
  session object.
\<close>

definition createStreamingSession ::
  "StreamingOptions \<Rightarrow> TrackData \<Rightarrow> string \<Rightarrow> int \<Rightarrow> service \<Rightarrow> service \<times> nat" where
  "createStreamingSession options trackData sessionId now st =
     (let session = \<lparr> session_id = sessionId,
                       userId = opt_userId options,
                       trackId = opt_trackId options,
                       isActive = True,
                       startTime = now,
                       currentPosition = 0,
                       totalDuration = track_duration trackData * 60,
                       affirmationInterval = or_default (opt_affirmationInterval options) 30,
                       lastAffirmationTime = 0,
                       musicSegments = [],
                       affirmations = [],
                       currentSegmentIndex = 0,
                       bufferSize = or_default (opt_bufferSize options) 3 \<rparr>;
          r = length (heap st);
          st1 = st\<lparr> heap := heap st @ [session],
                     sessions := AList.update sessionId r (sessions st) \<rparr>;
          st2 = suspend (InitialSegments r trackData (or_default (opt_segmentDuration options) 60)) st1;
          st3 = suspend (AffirmationsFor r (track_affirmations trackData)) st2
      in (st3, r))"

text \<open>
  The body of \<^verbatim>\<open>generateInitialSegments\<close> after its \<^verbatim>\<open>await\<close>s. \<open>None\<close> is a
  failure to load the services, which the \<^verbatim>\<open>catch\<close> block logs before it calls
  \<^verbatim>\<open>this.emit('error', ...)\<close>. That call ends the body on either path, so the state is
  the one after it, and \<open>generateInitialSegments_outcome\<close> is how the promise settles.
  Nobody awaits this promise; what the runtime does with its rejection is outside the
  model, in which the service goes on.

  The assignment \<^verbatim>\<open>session.musicSegments = segments\<close> gives the session object a new
  array. A suspended \<^verbatim>\<open>cleanupSession\<close> that iterates the array held until then goes
  on with that one (\<open>detach\<close>).
\<close>

definition detach :: "nat \<Rightarrow> GeneratedSegment list \<Rightarrow> task \<Rightarrow> task" where
  "detach r old t =
     (case t of
        Cleanup r' sessionId (Segments Current i) \<Rightarrow>
          if r' = r then Cleanup r' sessionId (Segments (Earlier old) i) else t
      | _ \<Rightarrow> t)"

definition generateInitialSegments ::
  "nat \<Rightarrow> TrackData \<Rightarrow> int \<Rightarrow> (int \<Rightarrow> string \<times> generation) option \<Rightarrow> service \<Rightarrow> service" where
  "generateInitialSegments r trackData segmentDuration services st =
     (case services of
        None \<Rightarrow> emit (ErrorEvent (session_id (deref st r))) st
      | Some env \<Rightarrow>
          (let musicOptions = \<lparr> prompt = [],
                                duration = segmentDuration,
                                trackType = track_trackType trackData,
                                moodTags = (case track_moodTags trackData of
                                              None \<Rightarrow> [''peaceful'', ''calm'']
                                            | Some tags \<Rightarrow> tags),
                                outputPath = None \<rparr>;
               segments = generateStreamingSegments musicOptions (bufferSize (deref st r)) env;
               st1 = modify r (\<lambda>s. s\<lparr> musicSegments := segments \<rparr>)
                       (st\<lparr> inflight := map (detach r (musicSegments (deref st r))) (inflight st) \<rparr>)
           in emit (SegmentsReady (session_id (deref st1 r)) segments) st1))"

definition generateInitialSegments_outcome ::
  "nat \<Rightarrow> (int \<Rightarrow> string \<times> generation) option \<Rightarrow> service \<Rightarrow> outcome" where
  "generateInitialSegments_outcome r services st =
     (case services of
        None \<Rightarrow> emitted (ErrorEvent (session_id (deref st r)))
      | Some env \<Rightarrow> Fulfilled)"

text \<open>
  The body of \<^verbatim>\<open>generateAffirmationsForSession\<close> after its \<^verbatim>\<open>await\<close>s; the
  argument is what \<^verbatim>\<open>synthesizeAffirmationSequence\<close> returned, \<open>None\<close> when it or the
  loading of the services failed.
\<close>

definition generateAffirmationsForSession ::
  "nat \<Rightarrow> string list \<Rightarrow> SynthesizedAudio list option \<Rightarrow> service \<Rightarrow> service" where
  "generateAffirmationsForSession r affirmationTexts services st =
     (case services of
        None \<Rightarrow> emit (ErrorEvent (session_id (deref st r))) st
      | Some synthesizedAffirmations \<Rightarrow>
          (let st1 = modify r (\<lambda>s. s\<lparr> affirmations := synthesizedAffirmations \<rparr>) st
           in emit (AffirmationsReady (session_id (deref st1 r)) synthesizedAffirmations) st1))"

definition generateAffirmationsForSession_outcome ::
  "nat \<Rightarrow> SynthesizedAudio list option \<Rightarrow> service \<Rightarrow> outcome" where
  "generateAffirmationsForSession_outcome r services st =
     (case services of
        None \<Rightarrow> emitted (ErrorEvent (session_id (deref st r)))
      | Some synthesizedAffirmations \<Rightarrow> Fulfilled)"

subsection \<open>Position updates\<close>

text \<open>\<open>random\<close> is the value of \<^verbatim>\<open>Math.random()\<close>, a number in \<open>[0, 1)\<close>.\<close>

definition triggerAffirmation :: "nat \<Rightarrow> real \<Rightarrow> service \<Rightarrow> service" where
  "triggerAffirmation r random st =
     (let session = deref st r in
      if length (affirmations session) = 0 then st
      else
        (let randomIndex = nat \<lfloor>random * real (length (affirmations session))\<rfloor>;
             selectedAffirmation = affirmations session ! randomIndex;
             st1 = modify r (\<lambda>s. s\<lparr> lastAffirmationTime := currentPosition s \<rparr>) st
         in emit (PlayAffirmation (session_id session) selectedAffirmation) st1))"

definition currentSegmentDuration :: "StreamingSession \<Rightarrow> int" where
  "currentSegmentDuration session =
     (case array_get (musicSegments session) (currentSegmentIndex session) of
        None \<Rightarrow> 60
      | Some segment \<Rightarrow> if seg_duration segment = 0 then 60 else seg_duration segment)"

definition segmentEndTime :: "StreamingSession \<Rightarrow> int" where
  "segmentEndTime session =
     currentSegmentIndex session * currentSegmentDuration session + currentSegmentDuration session"

text \<open>
  \<^verbatim>\<open>updateSessionPosition\<close> up to the point where the \<^verbatim>\<open>generateNextSegment\<close> it
  awaits suspends on the adapter: \<open>Inl\<close> is the throw for an unknown or inactive session,
  before anything is changed, and \<open>Inr\<close> is the state in which the call has ended or is
  suspended. A suspended call is the task \<open>NextSegment r\<close>; the \<^verbatim>\<open>await\<close> is the last
  statement of \<^verbatim>\<open>updateSessionPosition\<close>, so its promise settles when that task
  resumes, and as \<^verbatim>\<open>generateNextSegment\<close> settles
  (\<open>updateSessionPosition_settles\<close> below).
\<close>

definition updateSessionPosition :: "string \<Rightarrow> int \<Rightarrow> real \<Rightarrow> service \<Rightarrow> error + service" where
  "updateSessionPosition sessionId position random st =
     (case map_of (sessions st) sessionId of
        None \<Rightarrow> Inl SessionNotFoundOrInactive
      | Some r \<Rightarrow>
          if \<not> isActive (deref st r) then Inl SessionNotFoundOrInactive
          else
            (let st1 = modify r (\<lambda>s. s\<lparr> currentPosition := position \<rparr>) st;
                 st2 = (if position - lastAffirmationTime (deref st1 r)
                             \<ge> affirmationInterval (deref st1 r)
                        then triggerAffirmation r random st1 else st1);
                 st3 = (if position \<ge> segmentEndTime (deref st2 r) - 30
                        then suspend (NextSegment r) st2 else st2)
             in Inr st3))"

text \<open>
  The body of \<^verbatim>\<open>generateNextSegment\<close> after its \<^verbatim>\<open>await\<close>s on the adapter, on
  the session object that the call captured. The push and the shift are one synchronous
  step; the \<^verbatim>\<open>await\<close> on \<^verbatim>\<open>fs.unlink\<close> that follows them is run through within
  the same turn. A failure of the adapter is caught, logged and passed to
  \<^verbatim>\<open>this.emit('error', ...)\<close>, the last statement of the \<^verbatim>\<open>catch\<close> block.
\<close>

definition generateNextSegment :: "nat \<Rightarrow> generation option \<Rightarrow> service \<Rightarrow> service" where
  "generateNextSegment r services st =
     (case services of
        None \<Rightarrow> emit (ErrorEvent (session_id (deref st r))) st
      | Some g \<Rightarrow>
          (case generateMusicSegment
                  \<lparr> prompt = [], duration = 60, trackType = sleep,
                    moodTags = [''peaceful'', ''calm''], outputPath = None \<rparr> g of
             Inl _ \<Rightarrow> emit (ErrorEvent (session_id (deref st r))) st
           | Inr newSegment \<Rightarrow>
               (let st1 = modify r (\<lambda>s. s\<lparr> musicSegments := musicSegments s @ [newSegment] \<rparr>) st;
                    st2 = (if int (length (musicSegments (deref st1 r))) > bufferSize (deref st1 r) + 2
                           then (case musicSegments (deref st1 r) of
                                   [] \<Rightarrow> st1
                                 | oldSegment # rest \<Rightarrow>
                                     unlink (seg_audioPath oldSegment)
                                       (modify r (\<lambda>s. s\<lparr> musicSegments := rest \<rparr>) st1))
                           else st1)
                in emit (NewSegmentReady (session_id (deref st2 r)) newSegment) st2)))"

text \<open>
  How the promise of \<^verbatim>\<open>generateNextSegment\<close> settles. On the path of a generated
  segment nothing throws: a failed \<^verbatim>\<open>fs.unlink\<close> is caught and the last statement
  emits \<^verbatim>\<open>newSegmentReady\<close>. On the path of a failure the last statement is the
  \<^verbatim>\<open>this.emit('error', ...)\<close> inside the \<^verbatim>\<open>catch\<close> block, and what it throws leaves
  the function.
\<close>

definition generateNextSegment_outcome :: "nat \<Rightarrow> generation option \<Rightarrow> service \<Rightarrow> outcome" where
  "generateNextSegment_outcome r services st =
     (case services of
        None \<Rightarrow> emitted (ErrorEvent (session_id (deref st r)))
      | Some g \<Rightarrow>
          (case generateMusicSegment
                  \<lparr> prompt = [], duration = 60, trackType = sleep,
                    moodTags = [''peaceful'', ''calm''], outputPath = None \<rparr> g of
             Inl _ \<Rightarrow> emitted (ErrorEvent (session_id (deref st r)))
           | Inr newSegment \<Rightarrow> emitted (NewSegmentReady (session_id (deref st r)) newSegment)))"

text \<open>
  How the promise that \<^verbatim>\<open>updateSessionPosition\<close> returns settles, \<open>services\<close> being
  the answer of the adapter to the \<^verbatim>\<open>generateNextSegment\<close> that the call awaits when the
  growth trigger is crossed. The outcome of that call depends on the answer only.
\<close>

definition updateSessionPosition_settles ::
  "string \<Rightarrow> int \<Rightarrow> real \<Rightarrow> generation option \<Rightarrow> service \<Rightarrow> outcome" where
  "updateSessionPosition_settles sessionId position random services st =
     (case updateSessionPosition sessionId position random st of
        Inl e \<Rightarrow> Rejected e
      | Inr st' \<Rightarrow>
          (case map_of (sessions st) sessionId of
             None \<Rightarrow> Fulfilled
           | Some r \<Rightarrow>
               if position \<ge> segmentEndTime (deref st' r) - 30
               then generateNextSegment_outcome r services st' else Fulfilled))"

subsection \<open>Stopping, sweeping, lookups\<close>

text \<open>
  \<^verbatim>\<open>cleanupSession\<close> with nothing else in between: it unlinks the file of every
  buffered segment and then of every affirmation of the session object, each inside its
  own \<^verbatim>\<open>try\<close>.
\<close>

definition cleanupSession :: "StreamingSession \<Rightarrow> service \<Rightarrow> service" where
  "cleanupSession session st =
     fold (\<lambda>affirmation. unlink (aff_audioPath affirmation)) (affirmations session)
       (fold (\<lambda>segment. unlink (seg_audioPath segment)) (musicSegments session) st)"

text \<open>
  \<^verbatim>\<open>cleanupSession\<close> turn by turn. Each \<^verbatim>\<open>await fs.unlink(...)\<close> calls
  \<^verbatim>\<open>fs.unlink\<close> and suspends the call. \<open>cleanupSession_segments\<close> is the first loop
  at index \<open>i\<close> of its array, \<open>cleanupSession_affirmations\<close> the second loop at index
  \<open>j\<close>, and \<open>cleanupSession_end\<close> what follows the loops: \<^verbatim>\<open>cleanupSession\<close> returns
  and \<^verbatim>\<open>stopSession\<close> goes on behind its \<^verbatim>\<open>await\<close> and deletes the record. The
  flag \<open>resumed\<close> says whether the call has been suspended before; a call that reaches
  the end of the loops in the turn in which \<^verbatim>\<open>stopSession\<close> was called is suspended at
  the \<^verbatim>\<open>await\<close> of \<^verbatim>\<open>stopSession\<close>.
\<close>

definition cleanupSession_end :: "bool \<Rightarrow> nat \<Rightarrow> string \<Rightarrow> service \<Rightarrow> service" where
  "cleanupSession_end resumed r sessionId st =
     (if resumed then st\<lparr> sessions := AList.delete sessionId (sessions st) \<rparr>
      else suspend (Cleanup r sessionId Finishing) st)"

definition cleanupSession_affirmations ::
  "bool \<Rightarrow> nat \<Rightarrow> string \<Rightarrow> SynthesizedAudio list \<Rightarrow> nat \<Rightarrow> service \<Rightarrow> service" where
  "cleanupSession_affirmations resumed r sessionId affs j st =
     (if j < length affs
      then suspend (Cleanup r sessionId (Affirmations affs (Suc j)))
             (unlink (aff_audioPath (affs ! j)) st)
      else cleanupSession_end resumed r sessionId st)"

definition cleanupSession_segments ::
  "bool \<Rightarrow> nat \<Rightarrow> string \<Rightarrow> array_ref \<Rightarrow> nat \<Rightarrow> service \<Rightarrow> service" where
  "cleanupSession_segments resumed r sessionId a i st =
     (let segs = (case a of Current \<Rightarrow> musicSegments (deref st r) | Earlier old \<Rightarrow> old)
      in if i < length segs
         then suspend (Cleanup r sessionId (Segments a (Suc i)))
                (unlink (seg_audioPath (segs ! i)) st)
         else cleanupSession_affirmations resumed r sessionId (affirmations (deref st r)) 0 st)"

text \<open>
  \<^verbatim>\<open>stopSession\<close> throws before it changes anything when the id is not registered.
  Otherwise it marks the session inactive, emits \<^verbatim>\<open>sessionStopped\<close> and enters
  \<^verbatim>\<open>cleanupSession\<close>, in which or behind which it is suspended:
  \<open>stopSession_begin\<close> is the call up to there. \<open>stopSession_resume\<close> is what a
  suspended call does when the file system has answered, up to its next suspension or to
  its end.
\<close>

definition stopSession_begin :: "string \<Rightarrow> service \<Rightarrow> error + service" where
  "stopSession_begin sessionId st =
     (case map_of (sessions st) sessionId of
        None \<Rightarrow> Inl SessionNotFound
      | Some r \<Rightarrow>
          (let st1 = modify r (\<lambda>s. s\<lparr> isActive := False \<rparr>) st;
               st2 = emit (SessionStopped sessionId) st1
           in Inr (cleanupSession_segments False r sessionId Current 0 st2)))"

definition stopSession_resume :: "nat \<Rightarrow> string \<Rightarrow> stage \<Rightarrow> service \<Rightarrow> service" where
  "stopSession_resume r sessionId stage st =
     (case stage of
        Segments a i \<Rightarrow> cleanupSession_segments True r sessionId a i st
      | Affirmations affs j \<Rightarrow> cleanupSession_affirmations True r sessionId affs j st
      | Finishing \<Rightarrow> cleanupSession_end True r sessionId st)"

text \<open>
  \<open>stopSession\<close> is the whole call with nothing else in between: it is run to its end,
  through the \<^verbatim>\<open>await\<close>s on \<^verbatim>\<open>fs.unlink\<close> in \<^verbatim>\<open>cleanupSession\<close>, before the
  next request or answer is handled, as when nothing else is pending while a caller
  awaits it. It is \<open>stopSession_begin\<close> followed at once by the resumptions of the call
  until it ends (\<open>stopSession_split\<close> below).
\<close>

definition stopSession :: "string \<Rightarrow> service \<Rightarrow> error + service" where
  "stopSession sessionId st =
     (case map_of (sessions st) sessionId of
        None \<Rightarrow> Inl SessionNotFound
      | Some r \<Rightarrow>
          (let st1 = modify r (\<lambda>s. s\<lparr> isActive := False \<rparr>) st;
               st2 = emit (SessionStopped sessionId) st1;
               st3 = cleanupSession (deref st2 r) st2
           in Inr (st3\<lparr> sessions := AList.delete sessionId (sessions st3) \<rparr>)))"

definition maxInactiveTime :: int where
  "maxInactiveTime = 30 * 60 * 1000"

definition sessionsToCleanup :: "int \<Rightarrow> service \<Rightarrow> string list" where
  "sessionsToCleanup now st =
     map fst (filter (\<lambda>(sessionId, r). \<not> isActive (deref st r)
                                      \<or> now - startTime (deref st r) > maxInactiveTime)
                     (sessions st))"

text \<open>
  The sweep collects the ids first and then calls \<^verbatim>\<open>stopSession\<close> on each of them
  without awaiting it, so each call runs up to its first \<^verbatim>\<open>await\<close>; a rejected call
  is caught and logged. When the sweep returns, the sessions it selected are inactive and
  still registered, the first file of each has been passed to \<^verbatim>\<open>fs.unlink\<close>, and
  their cleanups are suspended.
\<close>

definition cleanupInactiveSessions :: "int \<Rightarrow> service \<Rightarrow> service" where
  "cleanupInactiveSessions now st =
     fold (\<lambda>sessionId s. case stopSession_begin sessionId s of Inl _ \<Rightarrow> s | Inr s' \<Rightarrow> s')
          (sessionsToCleanup now st) st"

definition getSession :: "string \<Rightarrow> service \<Rightarrow> StreamingSession option" where
  "getSession sessionId st = map_option (deref st) (map_of (sessions st) sessionId)"

definition getUserSessions :: "string \<Rightarrow> service \<Rightarrow> StreamingSession list" where
  "getUserSessions user st =
     filter (\<lambda>session. userId session = user \<and> isActive session)
            (map (\<lambda>(sessionId, r). deref st r) (sessions st))"

definition getStreamingUrl :: "string \<Rightarrow> int \<Rightarrow> service \<Rightarrow> error + string" where
  "getStreamingUrl sessionId segmentIndex st =
     (case map_of (sessions st) sessionId of
        None \<Rightarrow> Inl SessionNotFoundOrInactive
      | Some r \<Rightarrow>
          if \<not> isActive (deref st r) then Inl SessionNotFoundOrInactive
          else (case array_get (musicSegments (deref st r)) segmentIndex of
                  None \<Rightarrow> Inl SegmentNotFound
                | Some segment \<Rightarrow> Inr (seg_audioPath segment)))"

subsection \<open>Runs of the event loop\<close>

text \<open>
  One turn of the event loop is a request from outside, a pass of the sweep, or the
  answer of an adapter or of the file system to one of the suspended calls, in any order.
  A request that throws leaves the state as it was. \<open>Resume k reply\<close> removes the
  \<open>k\<close>-th suspended call and runs its body on, to its end or to its next suspension.
  \<open>BeginStop\<close> is a call of \<^verbatim>\<open>stopSession\<close> up to its first \<^verbatim>\<open>await\<close>, which
  later turns \<open>Resume k CleanupReply\<close> carry on; \<open>Stop\<close> is a call of
  \<^verbatim>\<open>stopSession\<close> that is completed before anything else happens.
\<close>

datatype reply =
  InitialReply "(int \<Rightarrow> string \<times> generation) option"
  | AffirmationsReply "SynthesizedAudio list option"
  | NextReply "generation option"
  | CleanupReply

datatype action =
  Create StreamingOptions TrackData string int
  | UpdatePosition string int real
  | Stop string
  | BeginStop string
  | Sweep int
  | Resume nat reply

definition settle :: "task \<Rightarrow> reply \<Rightarrow> service \<Rightarrow> service" where
  "settle t reply st =
     (case (t, reply) of
        (InitialSegments r trackData segmentDuration, InitialReply services) \<Rightarrow>
          generateInitialSegments r trackData segmentDuration services st
      | (AffirmationsFor r texts, AffirmationsReply services) \<Rightarrow>
          generateAffirmationsForSession r texts services st
      | (NextSegment r, NextReply services) \<Rightarrow> generateNextSegment r services st
      | (Cleanup r sessionId stage, CleanupReply) \<Rightarrow> stopSession_resume r sessionId stage st
      | _ \<Rightarrow> st)"

definition matches :: "task \<Rightarrow> reply \<Rightarrow> bool" where
  "matches t reply =
     (case (t, reply) of
        (InitialSegments r trackData segmentDuration, InitialReply services) \<Rightarrow> True
      | (AffirmationsFor r texts, AffirmationsReply services) \<Rightarrow> True
      | (NextSegment r, NextReply services) \<Rightarrow> True
      | (Cleanup r sessionId stage, CleanupReply) \<Rightarrow> True
      | _ \<Rightarrow> False)"

definition resume :: "nat \<Rightarrow> reply \<Rightarrow> service \<Rightarrow> service" where
  "resume k reply st =
     (if k < length (inflight st) \<and> matches (inflight st ! k) reply
      then settle (inflight st ! k) reply
             (st\<lparr> inflight := take k (inflight st) @ drop (Suc k) (inflight st) \<rparr>)
      else st)"

fun step :: "action \<Rightarrow> service \<Rightarrow> service" where
  "step (Create options trackData sessionId now) st =
     fst (createStreamingSession options trackData sessionId now st)"
| "step (UpdatePosition sessionId position random) st =
     (case updateSessionPosition sessionId position random st of Inl _ \<Rightarrow> st | Inr st' \<Rightarrow> st')"
| "step (Stop sessionId) st =
     (case stopSession sessionId st of Inl _ \<Rightarrow> st | Inr st' \<Rightarrow> st')"
| "step (BeginStop sessionId) st =
     (case stopSession_begin sessionId st of Inl _ \<Rightarrow> st | Inr st' \<Rightarrow> st')"
| "step (Sweep now) st = cleanupInactiveSessions now st"
| "step (Resume k reply) st = resume k reply st"

definition run :: "action list \<Rightarrow> service \<Rightarrow> service" where
  "run acts st = fold step acts st"

section \<open>Derived notions\<close>

text \<open>
  Quantities and predicates that the properties below speak about. They are read off the
  state and are not part of the service.
\<close>


text \<open>
  Whether the update to \<open>position\<close> plays an affirmation: the condition of
  \<^verbatim>\<open>updateSessionPosition\<close> together with the pool test of \<^verbatim>\<open>triggerAffirmation\<close>.
\<close>

definition fires :: "StreamingSession \<Rightarrow> int \<Rightarrow> bool" where
  "fires session position \<longleftrightarrow>
     position - lastAffirmationTime session \<ge> affirmationInterval session
     \<and> affirmations session \<noteq> []"

text \<open>The number of next-segment calls of the session object \<open>r\<close> that are in flight.\<close>

definition outstanding :: "nat \<Rightarrow> service \<Rightarrow> nat" where
  "outstanding r st = length (filter (\<lambda>t. t = NextSegment r) (inflight st))"

text \<open>The storage handles a session owns, in the order \<^verbatim>\<open>cleanupSession\<close> releases them.\<close>

definition owned_paths :: "StreamingSession \<Rightarrow> string list" where
  "owned_paths session =
     map seg_audioPath (musicSegments session) @ map aff_audioPath (affirmations session)"

fun is_play :: "event \<Rightarrow> bool" where
  "is_play (PlayAffirmation sessionId affirmation) = True"
| "is_play e = False"

text \<open>The number of \<^verbatim>\<open>playAffirmation\<close> notifications emitted so far.\<close>

definition plays :: "service \<Rightarrow> nat" where
  "plays st = length (filter is_play (events st))"

text \<open>A sequence of position updates of one session, each with its random draw.\<close>

definition update_all :: "string \<Rightarrow> (int \<times> real) list \<Rightarrow> service \<Rightarrow> service" where
  "update_all sessionId updates st =
     run (map (\<lambda>(position, random). UpdatePosition sessionId position random) updates) st"

text \<open>Adapter answers arriving one after another.\<close>

definition resume_all :: "(nat \<times> reply) list \<Rightarrow> service \<Rightarrow> service" where
  "resume_all answers st = fold (\<lambda>(k, reply). resume k reply) answers st"

text \<open>
  Where a call of \<^verbatim>\<open>stopSession\<close> on a session is suspended first: behind the
  unlink of its first segment, or of its first affirmation when it has no segment, or
  at its own \<^verbatim>\<open>await\<close> when it owns no file.
\<close>

definition first_stage :: "StreamingSession \<Rightarrow> stage" where
  "first_stage session =
     (if musicSegments session \<noteq> [] then Segments Current 1
      else if affirmations session \<noteq> [] then Affirmations (affirmations session) 1
      else Finishing)"

text \<open>
  A suspended call that is resumed moves to the end of the suspended calls. \<open>drain n\<close>
  resumes the last suspended call \<open>n\<close> times on an answer of the file system, with
  nothing else in between.
\<close>

definition resume_last :: "service \<Rightarrow> service" where
  "resume_last st = resume (length (inflight st) - 1) CleanupReply st"

definition drain :: "nat \<Rightarrow> service \<Rightarrow> service" where
  "drain n st = (resume_last ^^ n) st"

text \<open>Calls of \<^verbatim>\<open>stopSession\<close> started one after another and not awaited.\<close>

definition begin_all :: "string list \<Rightarrow> service \<Rightarrow> service" where
  "begin_all ids st =
     fold (\<lambda>sessionId s. case stopSession_begin sessionId s of Inl _ \<Rightarrow> s | Inr s' \<Rightarrow> s') ids st"

text \<open>
  Invariants of the runs: the table has one entry per key, every entry refers to an
  allocated session object that carries the key as its id, and every suspended call
  holds an allocated session object.
\<close>

fun task_ref :: "task \<Rightarrow> nat" where
  "task_ref (InitialSegments r trackData segmentDuration) = r"
| "task_ref (AffirmationsFor r texts) = r"
| "task_ref (NextSegment r) = r"
| "task_ref (Cleanup r sessionId stage) = r"

definition registry_ok :: "service \<Rightarrow> bool" where
  "registry_ok st \<longleftrightarrow>
     distinct (map fst (sessions st))
     \<and> (\<forall>(k, r) \<in> set (sessions st). r < length (heap st) \<and> session_id (deref st r) = k)"

definition tasks_ok :: "service \<Rightarrow> bool" where
  "tasks_ok st \<longleftrightarrow> (\<forall>t \<in> set (inflight st). task_ref t < length (heap st))"

text \<open>Every session object in the store has \<^verbatim>\<open>currentSegmentIndex\<close> 0.\<close>

definition index_ok :: "service \<Rightarrow> bool" where
  "index_ok st \<longleftrightarrow> (\<forall>session \<in> set (heap st). currentSegmentIndex session = 0)"

text \<open>The bound on the buffer of every session object in the store.\<close>

definition buffer_ok :: "service \<Rightarrow> bool" where
  "buffer_ok st \<longleftrightarrow>
     (\<forall>session \<in> set (heap st).
        - 2 \<le> bufferSize session
          \<longrightarrow> int (length (musicSegments session)) \<le> bufferSize session + 2)"

section \<open>Concrete scenarios\<close>

text \<open>
  The request of the repository's \<^verbatim>\<open>test_streaming.js\<close>: a five-minute sleep track,
  affirmations every 30 seconds, a buffer of 3 segments, \<^verbatim>\<open>segmentDuration\<close> 60. In
  \<open>demo_env\<close> every run of the generator succeeds.
\<close>

definition demo_options :: StreamingOptions where
  "demo_options = \<lparr> opt_trackId = 1, opt_userId = ''test-user-123'',
       opt_affirmationInterval = Some 30, opt_bufferSize = Some 3, opt_segmentDuration = Some 60 \<rparr>"

definition demo_track :: TrackData where
  "demo_track = \<lparr> track_duration = 5, track_trackType = sleep, track_moodTags = None,
       track_affirmations = [''I am calm''] \<rparr>"

definition demo_env :: "int \<Rightarrow> string \<times> generation" where
  "demo_env i = (''/tmp/generated_music/segment_'' @ replicate (nat i) (CHR ''i'') @ ''.wav'',
                 Generated (''seg'' @ replicate (nat i) (CHR ''i'')) ''Ambient sleep soundscape'' 1000)"

definition demo_affirmation :: SynthesizedAudio where
  "demo_affirmation =
     \<lparr> aff_id = ''a1'', aff_audioPath = ''/tmp/synthesized_voice/affirmation_0_a1.wav'',
       aff_text = ''I am calm'', aff_duration = 3, aff_synthesizedAt = 500 \<rparr>"

definition demo_created :: service where
  "demo_created = run [Create demo_options demo_track ''s1'' 0] initial"

definition demo_populated :: service where
  "demo_populated =
     run [Create demo_options demo_track ''s1'' 0, Resume 0 (InitialReply (Some demo_env))] initial"

text \<open>The session of the test request with its three segments and its one affirmation.\<close>

definition demo_ready :: service where
  "demo_ready =
     run [Create demo_options demo_track ''s1'' 0,
          Resume 0 (InitialReply (Some demo_env)),
          Resume 0 (AffirmationsReply (Some [demo_affirmation]))] initial"

text \<open>
  The session of the test request (\<^verbatim>\<open>affirmationInterval\<close> 30) once its affirmation
  pool has arrived, before any position update.
\<close>

definition demo_pool :: service where
  "demo_pool =
     run [Create demo_options demo_track ''s1'' 0,
          Resume 1 (AffirmationsReply (Some [demo_affirmation]))] initial"

text \<open>
  The session of the test request after its affirmation pool has arrived and an
  affirmation has been played at position 60.
\<close>

definition demo_played :: service where
  "demo_played =
     run [Create demo_options demo_track ''s1'' 0,
          Resume 1 (AffirmationsReply (Some [demo_affirmation])),
          UpdatePosition ''s1'' 60 0] initial"

text \<open>
  The session of the test request with a full buffer of five segments: the three initial
  ones and two later ones.
\<close>

definition demo_full :: service where
  "demo_full =
     run [Create demo_options demo_track ''s1'' 0,
          Resume 0 (InitialReply (Some demo_env)),
          UpdatePosition ''s1'' 0 0,
          Resume 1 (NextReply (Some (Generated ''n1'' ''Ethereal pad sounds'' 3000))),
          UpdatePosition ''s1'' 1 0,
          Resume 1 (NextReply (Some (Generated ''n2'' ''Ethereal pad sounds'' 4000))),
          UpdatePosition ''s1'' 2 0] initial"

text \<open>
  Right after creation, before any adapter has answered, the client reports position 30
  and then position 31.
\<close>

definition demo_one_update :: service where
  "demo_one_update = run [Create demo_options demo_track ''s1'' 0, UpdatePosition ''s1'' 30 0] initial"

definition demo_two_updates :: service where
  "demo_two_updates =
     run [Create demo_options demo_track ''s1'' 0, UpdatePosition ''s1'' 30 0,
          UpdatePosition ''s1'' 31 0] initial"

text \<open>
  A session is stopped while its next-segment call is in flight; the generator answers
  afterwards.
\<close>

definition demo_stopped :: service where
  "demo_stopped = step (Stop ''s1'') demo_one_update"

definition demo_late :: service where
  "demo_late = resume 2 (NextReply (Some (Generated ''late'' ''Soft acoustic guitar'' 2000))) demo_stopped"

text \<open>
  The same with a full buffer: the session is stopped while the next-segment call of its
  last position update is in flight, and the generator answers afterwards.
\<close>

definition demo_full_stopped :: service where
  "demo_full_stopped = step (Stop ''s1'') demo_full"

definition demo_full_late :: service where
  "demo_full_late =
     resume 1 (NextReply (Some (Generated ''late'' ''Soft acoustic guitar'' 6000))) demo_full_stopped"

definition demo_answers :: "(nat \<times> reply) list" where
  "demo_answers =
     [(2, NextReply (Some (Generated ''late'' ''Soft acoustic guitar'' 2000))),
      (0, InitialReply (Some demo_env))]"

text \<open>
  The session of the test request, created at time 0, with its three segments and its one
  affirmation, whose client is still sending positions (the last one at position 1859);
  the sweep that runs 31 minutes after the creation; and the stop that the sweep started,
  carried on to its end.
\<close>

definition demo_aged :: service where
  "demo_aged =
     run [Create demo_options demo_track ''s1'' 0,
          Resume 0 (InitialReply (Some demo_env)),
          Resume 0 (AffirmationsReply (Some [demo_affirmation])),
          UpdatePosition ''s1'' 1859 0] initial"

definition demo_swept :: service where
  "demo_swept = step (Sweep (31 * 60 * 1000)) demo_aged"

definition demo_swept_done :: service where
  "demo_swept_done = drain 3 (resume 1 CleanupReply demo_swept)"

text \<open>
  The same session when its stop has begun, one second after its creation, and waits for
  the file system.
\<close>

definition demo_stopping :: service where
  "demo_stopping = step (BeginStop ''s1'') demo_ready"

text \<open>
  The sweep comes by while that stop is suspended, and then the file system answers the
  two suspended stops in turn until both have ended.
\<close>

definition demo_overlap :: service where
  "demo_overlap = run (Sweep 1000 # replicate 8 (Resume 0 CleanupReply)) demo_stopping"



text \<open>A start request with a negative buffer size and a negative affirmation interval.\<close>

definition negative_options :: StreamingOptions where
  "negative_options =
     \<lparr> opt_trackId = 1, opt_userId = ''test-user-123'', opt_affirmationInterval = Some (- 5),
       opt_bufferSize = Some (- 1), opt_segmentDuration = None \<rparr>"

definition demo_negative :: service where
  "demo_negative = run [Create negative_options demo_track ''s2'' 0] initial"

text \<open>
  A start request with \<^verbatim>\<open>bufferSize\<close> \<open>-3\<close>, after both of its background calls have
  been answered.
\<close>

definition minus_three_options :: StreamingOptions where
  "minus_three_options =
     \<lparr> opt_trackId = 1, opt_userId = ''test-user-123'', opt_affirmationInterval = None,
       opt_bufferSize = Some (- 3), opt_segmentDuration = None \<rparr>"

definition demo_minus_three :: service where
  "demo_minus_three =
     run [Create minus_three_options demo_track ''s3'' 0,
          Resume 0 (InitialReply (Some demo_env)),
          Resume 0 (AffirmationsReply (Some []))] initial"

section \<open>The initial batch of segments\<close>

subsection \<open>Division in binary64\<close>

lemma pow2_powr: "pow2 e = 2 powr (real_of_int e)"
  by (simp add: pow2_def powr_int)

lemma pow2_pos: "0 < pow2 e"
  by (simp add: pow2_powr)

lemma pow2_add: "pow2 (d + e) = pow2 d * pow2 e"
  by (simp add: pow2_powr powr_add)

lemma round_half_even_error: "\<bar>real_of_int (round_half_even x) - x\<bar> \<le> 1 / 2"
proof -
  have "real_of_int \<lfloor>x\<rfloor> \<le> x" "x < real_of_int \<lfloor>x\<rfloor> + 1" by linarith+
  then show ?thesis
    by (auto simp: round_half_even_def Let_def)
qed

lemma round_half_even_of_int: "round_half_even (real_of_int n) = n"
  by (simp add: round_half_even_def)

lemma exponent_le:
  assumes "0 < p" "0 < q"
  shows "pow2 (exponent p q) * real_of_int q \<le> real_of_int p"
proof (cases "pow2 (bitlen p - bitlen q) * real_of_int q \<le> real_of_int p")
  case True
  then show ?thesis by (simp add: exponent_def)
next
  case False
  have bp: "1 \<le> bitlen p" using assms(1) bitlen_nonneg[of p] bitlen_eq_zero_iff[of p] by linarith
  from bitlen_bounds[OF assms(1)] have "real_of_int (2 ^ nat (bitlen p - 1)) \<le> real_of_int p"
    by (simp only: of_int_le_iff)
  then have p: "pow2 (bitlen p - 1) \<le> real_of_int p"
    using bp by (simp add: pow2_def)
  from bitlen_bounds[OF assms(2)] have "real_of_int q \<le> real_of_int (2 ^ nat (bitlen q))"
    by (simp only: of_int_le_iff) simp
  then have q: "real_of_int q \<le> pow2 (bitlen q)"
    using bitlen_nonneg[of q] by (simp add: pow2_def)
  have "pow2 (bitlen p - bitlen q - 1) * real_of_int q
          \<le> pow2 (bitlen p - bitlen q - 1) * pow2 (bitlen q)"
    using q pow2_pos[of "bitlen p - bitlen q - 1"] by (intro mult_left_mono) simp_all
  also have "\<dots> = pow2 (bitlen p - 1)"
    using pow2_add[of "bitlen p - bitlen q - 1" "bitlen q"] by (simp add: algebra_simps)
  finally show ?thesis using p False by (simp add: exponent_def)
qed

lemma exponent_upper:
  assumes "0 < p" "p < 2 ^ 53" "0 < q"
  shows "exponent p q \<le> 52"
proof -
  have "bitlen p \<le> 53"
  proof (rule ccontr)
    assume "\<not> bitlen p \<le> 53"
    then have "54 \<le> bitlen p" by simp
    then have "(2::int) ^ 53 \<le> 2 ^ nat (bitlen p - 1)"
      by (intro power_increasing) auto
    with bitlen_bounds[OF assms(1)] assms(2) show False by linarith
  qed
  moreover have "1 \<le> bitlen q"
    using assms(3) bitlen_nonneg[of q] bitlen_eq_zero_iff[of q] by linarith
  ultimately show ?thesis by (auto simp: exponent_def Let_def)
qed

lemma quotient_off_integer:
  assumes "b \<noteq> 0" "real_of_int a / real_of_int b \<noteq> real_of_int k"
  shows "1 / \<bar>real_of_int b\<bar> \<le> \<bar>real_of_int a / real_of_int b - real_of_int k\<bar>"
proof -
  have "a - k * b \<noteq> 0"
  proof
    assume "a - k * b = 0"
    then have "real_of_int a = real_of_int k * real_of_int b" by (simp add: algebra_simps flip: of_int_mult)
    with assms show False by simp
  qed
  then have "1 \<le> \<bar>real_of_int (a - k * b)\<bar>" by linarith
  moreover have "real_of_int a / real_of_int b - real_of_int k
                   = real_of_int (a - k * b) / real_of_int b"
    using assms(1) by (simp add: field_simps)
  ultimately show ?thesis
    using assms(1) by (simp add: abs_divide divide_right_mono)
qed

text \<open>
  For a numerator below \<open>2^53\<close> in magnitude the rounded quotient has the ceiling of the
  exact one: the rounding error is below \<open>1 / \<bar>b\<bar>\<close>, the least distance of a quotient
  that is no integer from the integers, and an integer quotient is a double.
\<close>

lemma ceil_div_exact:
  assumes a: "\<bar>a\<bar> < 2 ^ 53" and b: "b \<noteq> 0"
  shows "ceil_div a b = - ((- a) div b)"
proof (cases "a = 0")
  case True
  then show ?thesis by (simp add: ceil_div_def binary64_div_def)
next
  case False
  define q where "q = real_of_int a / real_of_int b"
  define ulp where "ulp = pow2 (exponent \<bar>a\<bar> \<bar>b\<bar> - 52)"
  define rnd where "rnd = real_of_int (round_half_even (q / ulp)) * ulp"
  define m where "m = - ((- a) div b)"
  have pa: "0 < \<bar>a\<bar>" and pb: "0 < \<bar>b\<bar>" using False b by simp_all
  have ulp_pos: "0 < ulp" by (simp add: ulp_def pow2_pos)
  have m: "m = \<lceil>q\<rceil>"
  proof -
    have "\<lfloor>real_of_int (- a) / real_of_int b\<rfloor> = (- a) div b"
      by (rule floor_divide_of_int_eq)
    then show ?thesis by (simp add: m_def q_def ceiling_def)
  qed
  have "pow2 52 = 2 ^ 52" by (simp add: pow2_def)
  then have ulp_eq: "ulp * 2 ^ 52 = pow2 (exponent \<bar>a\<bar> \<bar>b\<bar>)"
    using pow2_add[of "exponent \<bar>a\<bar> \<bar>b\<bar> - 52" 52] by (simp add: ulp_def)
  have "pow2 (exponent \<bar>a\<bar> \<bar>b\<bar>) * real_of_int \<bar>b\<bar> \<le> real_of_int \<bar>a\<bar>"
    by (rule exponent_le[OF pa pb])
  then have "ulp * 2 ^ 52 * \<bar>real_of_int b\<bar> \<le> \<bar>real_of_int a\<bar>"
    by (simp only: ulp_eq of_int_abs)
  moreover have "\<bar>real_of_int a\<bar> < 2 ^ 53"
    using a by (metis of_int_abs of_int_less_numeral_power_cancel_iff)
  ultimately have "ulp * 2 ^ 52 * \<bar>real_of_int b\<bar> < 2 ^ 53" by linarith
  then have "ulp * \<bar>real_of_int b\<bar> < 2" by simp
  then have half: "ulp / 2 < 1 / \<bar>real_of_int b\<bar>"
    using b by (simp add: field_simps)
  have "\<bar>real_of_int (round_half_even (q / ulp)) - q / ulp\<bar> \<le> 1 / 2"
    by (rule round_half_even_error)
  from mult_right_mono[OF this, of ulp]
  have "\<bar>real_of_int (round_half_even (q / ulp)) - q / ulp\<bar> * \<bar>ulp\<bar> \<le> 1 / 2 * ulp"
    using ulp_pos by simp
  moreover have "(real_of_int (round_half_even (q / ulp)) - q / ulp) * ulp = rnd - q"
    using ulp_pos by (simp add: rnd_def left_diff_distrib)
  ultimately have err: "\<bar>rnd - q\<bar> \<le> ulp / 2"
    by (simp add: abs_mult[symmetric])
  have lower: "real_of_int m - 1 < rnd"
  proof -
    have "real_of_int (m - 1) < q" unfolding m by linarith
    then have "q \<noteq> real_of_int (m - 1)" by simp
    from quotient_off_integer[OF b this[unfolded q_def]]
    have "1 / \<bar>real_of_int b\<bar> \<le> q - real_of_int (m - 1)"
      using \<open>real_of_int (m - 1) < q\<close> by (simp add: q_def)
    with half err show ?thesis by linarith
  qed
  have upper: "rnd \<le> real_of_int m"
  proof (cases "q = real_of_int m")
    case True
    have e52: "exponent \<bar>a\<bar> \<bar>b\<bar> \<le> 52"
      using exponent_upper[OF pa a pb] .
    then have u: "ulp = 1 / 2 ^ nat (52 - exponent \<bar>a\<bar> \<bar>b\<bar>)"
      by (auto simp: ulp_def pow2_def)
    then have "q / ulp = real_of_int (m * 2 ^ nat (52 - exponent \<bar>a\<bar> \<bar>b\<bar>))"
      by (simp add: True)
    then have "round_half_even (q / ulp) = m * 2 ^ nat (52 - exponent \<bar>a\<bar> \<bar>b\<bar>)"
      by (simp only: round_half_even_of_int)
    then have "rnd = real_of_int m"
      using u by (simp add: rnd_def)
    then show ?thesis by simp
  next
    case neq: False
    have "q \<le> real_of_int m" unfolding m by linarith
    from quotient_off_integer[OF b neq[unfolded q_def]]
    have "1 / \<bar>real_of_int b\<bar> \<le> real_of_int m - q"
      using \<open>q \<le> real_of_int m\<close> by (simp add: q_def)
    with half err show ?thesis by linarith
  qed
  have "\<lceil>rnd\<rceil> = m"
    using lower upper by (intro ceiling_unique) simp_all
  then show ?thesis
    using False by (simp add: ceil_div_def binary64_div_def Let_def rnd_def ulp_def q_def m_def)
qed

text \<open>Beyond \<open>2^53\<close> the quotient is rounded before the ceiling is taken.\<close>

lemma ceil_div_rounded: "ceil_div (10 ^ 18) 3 = 333333333333333312"
  by code_simp

lemma ceil_div_ge:
  assumes "0 < b" "\<bar>a\<bar> < 2 ^ 53"
  shows "a \<le> b * ceil_div a b"
proof -
  have "b * ((- a) div b) \<le> - a"
    using pos_mod_sign[OF assms(1), of "- a"] mult_div_mod_eq[of b "- a"] by linarith
  moreover have "ceil_div a b = - ((- a) div b)"
    using assms by (intro ceil_div_exact) simp_all
  ultimately show ?thesis by simp
qed

subsection \<open>The loop\<close>

lemma streamingLoop_length_le:
  "length (streamingLoop options d n env i segs) \<le> length segs + nat (n - i)"
proof (induction options d n env i segs rule: streamingLoop.induct)
  case (1 options d n env i segs)
  show ?case
  proof (cases "i < n")
    case False
    then show ?thesis by (simp add: streamingLoop.simps)
  next
    case True
    show ?thesis
    proof (cases "generateMusicSegment (options\<lparr>duration := d, outputPath := Some (fst (env i))\<rparr>) (snd (env i))")
      case (Inl e)
      with True "1.IH"(1)[OF True Inl] show ?thesis
        by (subst streamingLoop.simps) simp
    next
      case (Inr seg)
      with True "1.IH"(2)[OF True Inr] show ?thesis
        by (subst streamingLoop.simps) (simp add: nat_diff_distrib)
    qed
  qed
qed

lemma generateMusicSegment_duration:
  "generateMusicSegment options g = Inr seg \<Longrightarrow> seg_duration seg = duration options"
  by (auto simp: generateMusicSegment_def split: generation.splits)

lemma generateMusicSegment_ok:
  "g \<noteq> Failed \<Longrightarrow> \<exists>seg. generateMusicSegment options g = Inr seg"
  by (cases g) (auto simp: generateMusicSegment_def)

lemma streamingLoop_durations:
  "seg \<in> set (streamingLoop options d n env i segs) \<Longrightarrow> seg \<in> set segs \<or> seg_duration seg = d"
proof (induction options d n env i segs rule: streamingLoop.induct)
  case (1 options d n env i segs)
  show ?case
  proof (cases "i < n")
    case False
    with "1.prems" show ?thesis by (simp add: streamingLoop.simps)
  next
    case True
    show ?thesis
    proof (cases "generateMusicSegment (options\<lparr>duration := d, outputPath := Some (fst (env i))\<rparr>) (snd (env i))")
      case (Inl e)
      from "1.prems" True Inl
      have "seg \<in> set (streamingLoop options d n env (i + 1) segs)"
        by (subst (asm) streamingLoop.simps) simp
      with "1.IH"(1)[OF True Inl] show ?thesis by simp
    next
      case (Inr s)
      from "1.prems" True Inr
      have "seg \<in> set (streamingLoop options d n env (i + 1) (segs @ [s]))"
        by (subst (asm) streamingLoop.simps) simp
      with "1.IH"(2)[OF True Inr] generateMusicSegment_duration[OF Inr] show ?thesis by auto
    qed
  qed
qed

lemma streamingLoop_all_ok:
  "(\<And>j. i \<le> j \<Longrightarrow> j < n \<Longrightarrow> snd (env j) \<noteq> Failed) \<Longrightarrow>
   length (streamingLoop options d n env i segs) = length segs + nat (n - i)"
proof (induction options d n env i segs rule: streamingLoop.induct)
  case (1 options d n env i segs)
  show ?case
  proof (cases "i < n")
    case False
    then show ?thesis by (simp add: streamingLoop.simps)
  next
    case True
    from "1.prems"[of i] True have "snd (env i) \<noteq> Failed" by simp
    then obtain s where Inr: "generateMusicSegment (options\<lparr>duration := d, outputPath := Some (fst (env i))\<rparr>) (snd (env i)) = Inr s"
      using generateMusicSegment_ok by blast
    have "length (streamingLoop options d n env (i + 1) (segs @ [s])) = length (segs @ [s]) + nat (n - (i + 1))"
      using "1.IH"(2)[OF True Inr] "1.prems" by simp
    with True Inr show ?thesis
      by (subst streamingLoop.simps) (simp add: nat_diff_distrib)
  qed
qed

lemma sum_list_const_map:
  "(\<And>x. x \<in> set xs \<Longrightarrow> f x = (c::int)) \<Longrightarrow> sum_list (map f xs) = int (length xs) * c"
  by (induction xs) (auto simp: algebra_simps)

lemma generateStreamingSegments_props:
  "length (generateStreamingSegments options n env) \<le> nat n"
  "seg \<in> set (generateStreamingSegments options n env) \<Longrightarrow> seg_duration seg = ceil_div (duration options) n"
  "(\<And>j. 0 \<le> j \<Longrightarrow> j < n \<Longrightarrow> snd (env j) \<noteq> Failed) \<Longrightarrow> length (generateStreamingSegments options n env) = nat n"
  using streamingLoop_length_le[of options "ceil_div (duration options) n" n env 0 "[]"]
        streamingLoop_durations[of seg options "ceil_div (duration options) n" n env 0 "[]"]
        streamingLoop_all_ok[of 0 n env options "ceil_div (duration options) n" "[]"]
  by (simp_all add: generateStreamingSegments_def)

text \<open>
  Claim C1, as the code has it. A session whose \<^verbatim>\<open>bufferSize\<close> is 3 at creation
  (the option is 3, absent or 0) starts one initial-population call with the
  \<^verbatim>\<open>segmentDuration\<close> option \<open>d\<close> (60 when the option is absent or 0). When that call
  resumes, the session holds at most 3 segments, all recorded with one and the same
  duration; when none of the three generator runs fails it holds exactly 3, and for
  \<open>d\<close> below \<open>2^53\<close> in magnitude, where the division is exact, their durations sum to at
  least \<open>d\<close>. The track's \<^verbatim>\<open>totalDuration\<close> plays no part.
\<close>

theorem initial_population:
  fixes options trackData sessionId now st env
  defines "created \<equiv> createStreamingSession options trackData sessionId now st"
      and "d \<equiv> or_default (opt_segmentDuration options) 60"
  defines "segs \<equiv> musicSegments (deref (resume (length (inflight st)) (InitialReply (Some env))
                                        (fst created)) (snd created))"
  assumes "bufferSize (deref (fst created) (snd created)) = 3"
  shows "inflight (fst created) ! length (inflight st) = InitialSegments (snd created) trackData d
       \<and> length segs \<le> 3
       \<and> (\<forall>seg \<in> set segs. \<forall>seg' \<in> set segs. seg_duration seg = seg_duration seg')
       \<and> ((\<forall>i \<in> {0, 1, 2}. snd (env i) \<noteq> Failed)
            \<longrightarrow> length segs = 3
                \<and> (\<bar>d\<bar> < 2 ^ 53 \<longrightarrow> d \<le> sum_list (map seg_duration segs)))"
proof -
  let ?r = "length (heap st)"
  let ?opts = "\<lparr> prompt = [], duration = d, trackType = track_trackType trackData,
                  moodTags = (case track_moodTags trackData of None \<Rightarrow> [''peaceful'', ''calm''] | Some tags \<Rightarrow> tags),
                  outputPath = None \<rparr>"
  have r: "snd created = ?r"
    by (simp add: created_def createStreamingSession_def Let_def)
  have b3: "or_default (opt_bufferSize options) 3 = 3"
    using assms(4) unfolding r
    by (simp add: created_def createStreamingSession_def Let_def suspend_def deref_def)
  have task: "inflight (fst created) ! length (inflight st) = InitialSegments ?r trackData d"
    by (simp add: created_def createStreamingSession_def Let_def suspend_def d_def nth_append)
  have len: "length (inflight st) < length (inflight (fst created))"
    by (simp add: created_def createStreamingSession_def Let_def suspend_def)
  have segs: "segs = generateStreamingSegments ?opts 3 env"
    unfolding segs_def r resume_def using len task b3
    by (simp add: matches_def settle_def generateInitialSegments_def Let_def)
       (simp add: created_def createStreamingSession_def Let_def suspend_def emit_def modify_def
                  deref_def)
  have l3: "length segs \<le> 3"
    using generateStreamingSegments_props(1)[of ?opts 3 env] by (simp add: segs)
  have dur: "\<forall>seg \<in> set segs. seg_duration seg = ceil_div d 3"
    using generateStreamingSegments_props(2)[of _ ?opts 3 env] by (simp add: segs)
  have full: "length segs = 3 \<and> (\<bar>d\<bar> < 2 ^ 53 \<longrightarrow> d \<le> sum_list (map seg_duration segs))"
    if ok: "\<forall>i \<in> {0, 1, 2}. snd (env i) \<noteq> Failed"
  proof -
    have "\<And>j. 0 \<le> j \<Longrightarrow> j < 3 \<Longrightarrow> snd (env j) \<noteq> Failed"
    proof -
      fix j :: int assume "0 \<le> j" "j < 3"
      then have "j = 0 \<or> j = 1 \<or> j = 2" by arith
      with ok show "snd (env j) \<noteq> Failed" by auto
    qed
    then have l: "length segs = 3"
      using generateStreamingSegments_props(3)[of 3 env ?opts] by (simp add: segs)
    have "sum_list (map seg_duration segs) = int (length segs) * ceil_div d 3"
      using dur by (intro sum_list_const_map) simp
    with l ceil_div_ge[of 3 d] show ?thesis by simp
  qed
  from dur have same: "\<forall>seg \<in> set segs. \<forall>seg' \<in> set segs. seg_duration seg = seg_duration seg'"
    by simp
  have task': "inflight (fst created) ! length (inflight st)
                 = InitialSegments (snd created) trackData d"
    using task by (simp add: r)
  from task' l3 same full show ?thesis by blast
qed

theorem initial_population_witness:
  "bufferSize (deref (fst (createStreamingSession demo_options demo_track ''s1'' 0 initial))
                 (snd (createStreamingSession demo_options demo_track ''s1'' 0 initial))) = 3
   \<and> \<bar>or_default (opt_segmentDuration demo_options) 60\<bar> < 2 ^ 53
   \<and> length (musicSegments (deref demo_populated 0)) = 3
   \<and> 60 \<le> sum_list (map seg_duration (musicSegments (deref demo_populated 0)))"
proof -
  have b: "bufferSize (deref (fst (createStreamingSession demo_options demo_track ''s1'' 0 initial))
                 (snd (createStreamingSession demo_options demo_track ''s1'' 0 initial))) = 3"
    by code_simp
  have ok: "\<forall>i \<in> {0, 1, 2}. snd (demo_env i) \<noteq> Failed"
    by (simp add: demo_env_def)
  have pop: "demo_populated =
      resume (length (inflight initial)) (InitialReply (Some demo_env))
        (fst (createStreamingSession demo_options demo_track ''s1'' 0 initial))"
    by (simp add: demo_populated_def run_def initial_def)
  have r: "snd (createStreamingSession demo_options demo_track ''s1'' 0 initial) = 0"
    by (simp add: createStreamingSession_def Let_def initial_def)
  have d: "or_default (opt_segmentDuration demo_options) 60 = 60"
    by (simp add: or_default_def demo_options_def)
  from initial_population[OF b, where env = demo_env] ok
  have "length (musicSegments (deref demo_populated 0)) = 3
      \<and> 60 \<le> sum_list (map seg_duration (musicSegments (deref demo_populated 0)))"
    by (simp add: pop[symmetric] r d)
  with b d show ?thesis by simp
qed

text \<open>
  Claim C1 as stated fails on the request of \<^verbatim>\<open>test_streaming.js\<close>: the session has
  \<^verbatim>\<open>bufferSize\<close> 3 and \<^verbatim>\<open>totalDuration\<close> 300, all three generator runs succeed, and
  the three recorded durations sum to 60.
\<close>

theorem initial_population_counterexample:
  "bufferSize (deref demo_populated 0) = 3
   \<and> totalDuration (deref demo_populated 0) = 300
   \<and> length (musicSegments (deref demo_populated 0)) = 3
   \<and> sum_list (map seg_duration (musicSegments (deref demo_populated 0))) = 60
   \<and> \<not> totalDuration (deref demo_populated 0)
          \<le> sum_list (map seg_duration (musicSegments (deref demo_populated 0)))"
  by code_simp

section \<open>Basic facts about the state\<close>

lemma heap_emit [simp]: "heap (emit e st) = heap st"
  and sessions_emit [simp]: "sessions (emit e st) = sessions st"
  and inflight_emit [simp]: "inflight (emit e st) = inflight st"
  and unlinked_emit [simp]: "unlinked (emit e st) = unlinked st"
  and events_emit [simp]: "events (emit e st) = events st @ [e]"
  by (simp_all add: emit_def)

lemma heap_suspend [simp]: "heap (suspend t st) = heap st"
  and sessions_suspend [simp]: "sessions (suspend t st) = sessions st"
  and inflight_suspend [simp]: "inflight (suspend t st) = inflight st @ [t]"
  and unlinked_suspend [simp]: "unlinked (suspend t st) = unlinked st"
  and events_suspend [simp]: "events (suspend t st) = events st"
  by (simp_all add: suspend_def)

lemma heap_unlink [simp]: "heap (unlink p st) = heap st"
  and sessions_unlink [simp]: "sessions (unlink p st) = sessions st"
  and inflight_unlink [simp]: "inflight (unlink p st) = inflight st"
  and unlinked_unlink [simp]: "unlinked (unlink p st) = unlinked st @ [p]"
  and events_unlink [simp]: "events (unlink p st) = events st"
  by (simp_all add: unlink_def)

lemma heap_modify [simp]: "heap (modify r f st) = (heap st)[r := f (heap st ! r)]"
  and sessions_modify [simp]: "sessions (modify r f st) = sessions st"
  and inflight_modify [simp]: "inflight (modify r f st) = inflight st"
  and unlinked_modify [simp]: "unlinked (modify r f st) = unlinked st"
  and events_modify [simp]: "events (modify r f st) = events st"
  by (simp_all add: modify_def)

lemma deref_emit [simp]: "deref (emit e st) r = deref st r"
  and deref_suspend [simp]: "deref (suspend t st) r = deref st r"
  and deref_unlink [simp]: "deref (unlink p st) r = deref st r"
  by (simp_all add: deref_def)

lemma deref_modify_same [simp]:
  "r < length (heap st) \<Longrightarrow> deref (modify r f st) r = f (deref st r)"
  by (simp add: deref_def)

lemma deref_modify_other [simp]:
  "r' \<noteq> r \<Longrightarrow> deref (modify r f st) r' = deref st r'"
  by (simp add: deref_def)

lemma length_heap_modify [simp]: "length (heap (modify r f st)) = length (heap st)"
  by simp

lemma deref_list_update:
  "x < length (heap st) \<Longrightarrow> heap st' = (heap st)[r := v] \<Longrightarrow>
   deref st' x = (if x = r then v else deref st x)"
  by (simp add: deref_def)

lemma heap_as_update:
  assumes "length (heap st') = length (heap st)"
      and "\<And>x. x \<noteq> r \<Longrightarrow> deref st' x = deref st x"
  shows "heap st' = (heap st)[r := deref st' r]"
proof (rule nth_equalityI)
  show "length (heap st') = length ((heap st)[r := deref st' r])"
    using assms(1) by simp
next
  fix i assume "i < length (heap st')"
  with assms show "heap st' ! i = (heap st)[r := deref st' r] ! i"
    by (cases "i = r") (simp_all add: deref_def)
qed


section \<open>What each operation changes\<close>

lemma createStreamingSession_effect:
  assumes "createStreamingSession options trackData sessionId now st = (st', r)"
  shows "r = length (heap st)"
    and "heap st' = heap st @
           [\<lparr> session_id = sessionId, userId = opt_userId options, trackId = opt_trackId options,
              isActive = True, startTime = now, currentPosition = 0,
              totalDuration = track_duration trackData * 60,
              affirmationInterval = or_default (opt_affirmationInterval options) 30,
              lastAffirmationTime = 0, musicSegments = [], affirmations = [],
              currentSegmentIndex = 0, bufferSize = or_default (opt_bufferSize options) 3 \<rparr>]"
    and "sessions st' = AList.update sessionId r (sessions st)"
    and "inflight st' = inflight st @
           [InitialSegments r trackData (or_default (opt_segmentDuration options) 60),
            AffirmationsFor r (track_affirmations trackData)]"
    and "events st' = events st"
    and "unlinked st' = unlinked st"
  using assms by (auto simp: createStreamingSession_def Let_def)

lemma task_ref_detach [simp]: "task_ref (detach r old t) = task_ref t"
  by (simp add: detach_def split: task.splits stage.splits array_ref.splits)

lemma detach_NextSegment [simp]: "detach r old t = NextSegment x \<longleftrightarrow> t = NextSegment x"
  by (auto simp: detach_def split: task.splits stage.splits array_ref.splits)

lemma generateInitialSegments_effect:
  "sessions (generateInitialSegments r trackData d services st) = sessions st"
  "inflight (generateInitialSegments r trackData d services st)
     = (case services of
          None \<Rightarrow> inflight st
        | Some env \<Rightarrow> map (detach r (musicSegments (deref st r))) (inflight st))"
  "unlinked (generateInitialSegments r trackData d services st) = unlinked st"
  "heap (generateInitialSegments r trackData d services st) =
     (case services of
        None \<Rightarrow> heap st
      | Some env \<Rightarrow>
          (heap st)[r := (heap st ! r)\<lparr> musicSegments :=
             generateStreamingSegments
               \<lparr> prompt = [], duration = d, trackType = track_trackType trackData,
                 moodTags = (case track_moodTags trackData of
                               None \<Rightarrow> [''peaceful'', ''calm''] | Some tags \<Rightarrow> tags),
                 outputPath = None \<rparr>
               (bufferSize (heap st ! r)) env \<rparr>])"
  by (simp_all add: generateInitialSegments_def Let_def deref_def split: option.splits)

lemma generateAffirmationsForSession_effect:
  "sessions (generateAffirmationsForSession r texts services st) = sessions st"
  "inflight (generateAffirmationsForSession r texts services st) = inflight st"
  "unlinked (generateAffirmationsForSession r texts services st) = unlinked st"
  "heap (generateAffirmationsForSession r texts services st) =
     (case services of
        None \<Rightarrow> heap st
      | Some synthesized \<Rightarrow> (heap st)[r := (heap st ! r)\<lparr> affirmations := synthesized \<rparr>])"
  by (simp_all add: generateAffirmationsForSession_def Let_def split: option.splits)

text \<open>What a position update does to the session object and to the suspended calls.\<close>

lemma triggerAffirmation_frame:
  "heap_len = length (heap st) \<Longrightarrow> r < heap_len \<Longrightarrow>
   length (heap (triggerAffirmation r random st)) = length (heap st)
   \<and> sessions (triggerAffirmation r random st) = sessions st
   \<and> inflight (triggerAffirmation r random st) = inflight st
   \<and> unlinked (triggerAffirmation r random st) = unlinked st
   \<and> musicSegments (deref (triggerAffirmation r random st) r) = musicSegments (deref st r)
   \<and> currentSegmentIndex (deref (triggerAffirmation r random st) r) = currentSegmentIndex (deref st r)
   \<and> currentPosition (deref (triggerAffirmation r random st) r) = currentPosition (deref st r)"
  by (simp add: triggerAffirmation_def Let_def)

lemma triggerAffirmation_effect:
  assumes ref: "r < length (heap st)"
  shows "sessions (triggerAffirmation r random st) = sessions st"
    and "inflight (triggerAffirmation r random st) = inflight st"
    and "unlinked (triggerAffirmation r random st) = unlinked st"
    and "length (heap (triggerAffirmation r random st)) = length (heap st)"
    and "r' \<noteq> r \<Longrightarrow> deref (triggerAffirmation r random st) r' = deref st r'"
    and "deref (triggerAffirmation r random st) r =
           (if affirmations (deref st r) = [] then deref st r
            else (deref st r)\<lparr> lastAffirmationTime := currentPosition (deref st r) \<rparr>)"
    and "events (triggerAffirmation r random st) =
           events st @ (if affirmations (deref st r) = [] then []
                        else [PlayAffirmation (session_id (deref st r))
                                (affirmations (deref st r)
                                   ! nat \<lfloor>random * real (length (affirmations (deref st r)))\<rfloor>)])"
  using ref by (simp_all add: triggerAffirmation_def Let_def)

lemma segmentEndTime_cong:
  "musicSegments s' = musicSegments s \<Longrightarrow> currentSegmentIndex s' = currentSegmentIndex s \<Longrightarrow>
   segmentEndTime s' = segmentEndTime s"
  by (simp add: segmentEndTime_def currentSegmentDuration_def)

lemma updateSessionPosition_succeeds:
  "map_of (sessions st) sessionId = Some r \<Longrightarrow> isActive (deref st r) \<Longrightarrow>
   \<exists>st'. updateSessionPosition sessionId position random st = Inr st'"
  by (simp add: updateSessionPosition_def Let_def)

lemma updateSessionPosition_fails:
  "map_of (sessions st) sessionId = None \<Longrightarrow>
   updateSessionPosition sessionId position random st = Inl SessionNotFoundOrInactive"
  "map_of (sessions st) sessionId = Some r \<Longrightarrow> \<not> isActive (deref st r) \<Longrightarrow>
   updateSessionPosition sessionId position random st = Inl SessionNotFoundOrInactive"
  by (simp_all add: updateSessionPosition_def)

lemma updateSessionPosition_effect:
  assumes upd: "updateSessionPosition sessionId position random st = Inr st'"
      and reg: "map_of (sessions st) sessionId = Some r"
      and ref: "r < length (heap st)"
  shows "sessions st' = sessions st"
    and "unlinked st' = unlinked st"
    and "length (heap st') = length (heap st)"
    and "r' \<noteq> r \<Longrightarrow> deref st' r' = deref st r'"
    and "deref st' r = (deref st r)\<lparr> currentPosition := position,
                                     lastAffirmationTime :=
                                       (if fires (deref st r) position then position
                                        else lastAffirmationTime (deref st r)) \<rparr>"
    and "events st' = events st @
           (if fires (deref st r) position
            then [PlayAffirmation (session_id (deref st r))
                    (affirmations (deref st r)
                       ! nat \<lfloor>random * real (length (affirmations (deref st r)))\<rfloor>)]
            else [])"
    and "inflight st' = inflight st @
           (if position \<ge> segmentEndTime (deref st r) - 30 then [NextSegment r] else [])"
proof -
  define st1 where "st1 = modify r (\<lambda>s. s\<lparr> currentPosition := position \<rparr>) st"
  define st2 where "st2 = (if position - lastAffirmationTime (deref st1 r) \<ge> affirmationInterval (deref st1 r)
              then triggerAffirmation r random st1 else st1)"
  define st3 where "st3 = (if position \<ge> segmentEndTime (deref st2 r) - 30
              then suspend (NextSegment r) st2 else st2)"
  have act: "isActive (deref st r)"
    using upd reg by (simp add: updateSessionPosition_def split: if_splits)
  have "updateSessionPosition sessionId position random st = Inr st3"
    using reg act by (simp add: updateSessionPosition_def Let_def st1_def st2_def st3_def)
  with upd have st': "st' = st3" by simp
  have len1: "r < length (heap st1)"
    using ref by (simp add: st1_def)
  have d1: "deref st1 r = (deref st r)\<lparr> currentPosition := position \<rparr>"
    using ref by (simp add: st1_def)
  note ta = triggerAffirmation_effect[OF len1, where random = random]
  have d2: "deref st2 r = (deref st r)\<lparr> currentPosition := position,
                                     lastAffirmationTime :=
                                       (if fires (deref st r) position then position
                                        else lastAffirmationTime (deref st r)) \<rparr>"
    by (simp add: st2_def ta(6) d1 fires_def)
  have seg2: "segmentEndTime (deref st2 r) = segmentEndTime (deref st r)"
    by (rule segmentEndTime_cong) (simp_all add: d2)
  show "sessions st' = sessions st"
    by (simp add: st' st3_def st2_def ta(1)) (simp add: st1_def)
  show "unlinked st' = unlinked st"
    by (simp add: st' st3_def st2_def ta(3)) (simp add: st1_def)
  show "length (heap st') = length (heap st)"
    by (simp add: st' st3_def st2_def ta(4)) (simp add: st1_def)
  show "deref st' r' = deref st r'" if "r' \<noteq> r"
    using that by (simp add: st' st3_def st2_def ta(5)) (simp add: st1_def)
  show "deref st' r = (deref st r)\<lparr> currentPosition := position,
                                     lastAffirmationTime :=
                                       (if fires (deref st r) position then position
                                        else lastAffirmationTime (deref st r)) \<rparr>"
    using d2 by (simp add: st' st3_def)
  show "events st' = events st @
           (if fires (deref st r) position
            then [PlayAffirmation (session_id (deref st r))
                    (affirmations (deref st r)
                       ! nat \<lfloor>random * real (length (affirmations (deref st r)))\<rfloor>)]
            else [])"
    by (simp add: st' st3_def st2_def ta(7) d1 fires_def) (simp add: st1_def)
  show "inflight st' = inflight st @
           (if position \<ge> segmentEndTime (deref st r) - 30 then [NextSegment r] else [])"
    by (simp add: st' st3_def seg2) (simp add: st2_def ta(2), simp add: st1_def)
qed

lemma generateNextSegment_failed:
  "services = None \<or> services = Some Failed \<Longrightarrow>
   generateNextSegment r services st = emit (ErrorEvent (session_id (deref st r))) st"
  by (auto simp: generateNextSegment_def generateMusicSegment_def)

text \<open>The buffer of a session after a new segment is pushed and the oldest one possibly dropped.\<close>

lemma generateNextSegment_effect:
  fixes segmentId chosen :: string and now :: int
  assumes ref: "r < length (heap st)"
  defines "newSegment \<equiv>
             \<lparr> seg_id = segmentId,
               seg_audioPath = path_join outputDir (segmentId @ ''.wav''),
               seg_duration = 60, seg_prompt = chosen, seg_generatedAt = now \<rparr>"
  defines "pushed \<equiv> musicSegments (deref st r) @ [newSegment]"
  defines "st' \<equiv> generateNextSegment r (Some (Generated segmentId chosen now)) st"
  shows "sessions st' = sessions st"
    and "inflight st' = inflight st"
    and "events st' = events st @ [NewSegmentReady (session_id (deref st r)) newSegment]"
    and "heap st' = (heap st)[r := (heap st ! r)\<lparr> musicSegments :=
                       (if int (length pushed) > bufferSize (deref st r) + 2 then tl pushed
                        else pushed) \<rparr>]"
    and "unlinked st' = unlinked st @
           (if int (length pushed) > bufferSize (deref st r) + 2
            then [seg_audioPath (hd pushed)] else [])"
proof -
  have gen: "generateMusicSegment
               \<lparr> prompt = [], duration = 60, trackType = sleep,
                 moodTags = [''peaceful'', ''calm''], outputPath = None \<rparr>
               (Generated segmentId chosen now) = Inr newSegment"
    by (simp add: generateMusicSegment_def newSegment_def)
  obtain x xs where pushed: "pushed = x # xs"
    by (cases pushed) (simp_all add: pushed_def)
  have unfolded: "st' =
     (let st1 = modify r (\<lambda>s. s\<lparr> musicSegments := musicSegments s @ [newSegment] \<rparr>) st;
          st2 = (if int (length (musicSegments (deref st1 r))) > bufferSize (deref st1 r) + 2
                 then (case musicSegments (deref st1 r) of
                         [] \<Rightarrow> st1
                       | oldSegment # rest \<Rightarrow>
                           unlink (seg_audioPath oldSegment)
                             (modify r (\<lambda>s. s\<lparr> musicSegments := rest \<rparr>) st1))
                 else st1)
      in emit (NewSegmentReady (session_id (deref st2 r)) newSegment) st2)"
    by (simp add: st'_def generateNextSegment_def gen)
  have d1: "deref (modify r (\<lambda>s. s\<lparr> musicSegments := musicSegments s @ [newSegment] \<rparr>) st) r
              = (deref st r)\<lparr> musicSegments := pushed \<rparr>"
    using ref by (simp add: pushed_def)
  show "sessions st' = sessions st"
    by (simp add: unfolded Let_def d1 pushed)
  show "inflight st' = inflight st"
    by (simp add: unfolded Let_def d1 pushed)
  show "events st' = events st @ [NewSegmentReady (session_id (deref st r)) newSegment]"
    using ref by (simp add: unfolded Let_def d1 pushed)
  show "heap st' = (heap st)[r := (heap st ! r)\<lparr> musicSegments :=
                       (if int (length pushed) > bufferSize (deref st r) + 2 then tl pushed
                        else pushed) \<rparr>]"
    using ref by (simp add: unfolded Let_def d1 pushed) (simp add: pushed[symmetric] pushed_def deref_def)
  show "unlinked st' = unlinked st @
           (if int (length pushed) > bufferSize (deref st r) + 2
            then [seg_audioPath (hd pushed)] else [])"
    by (simp add: unfolded Let_def d1 pushed)
qed

lemma fold_unlink:
  "fold (\<lambda>x. unlink (f x)) xs st = st\<lparr> unlinked := unlinked st @ map f xs \<rparr>"
  by (induction xs arbitrary: st) (simp_all add: unlink_def)

lemma cleanupSession_effect:
  "cleanupSession session st =
     st\<lparr> unlinked := unlinked st @ map seg_audioPath (musicSegments session)
                                 @ map aff_audioPath (affirmations session) \<rparr>"
  by (simp add: cleanupSession_def fold_unlink)

lemma stopSession_effect:
  assumes stop: "stopSession sessionId st = Inr st'"
  obtains r where "map_of (sessions st) sessionId = Some r"
    and "heap st' = (heap st)[r := (heap st ! r)\<lparr> isActive := False \<rparr>]"
    and "sessions st' = AList.delete sessionId (sessions st)"
    and "inflight st' = inflight st"
    and "events st' = events st @ [SessionStopped sessionId]"
    and "unlinked st' = unlinked st @ map seg_audioPath (musicSegments (deref st r))
                                    @ map aff_audioPath (affirmations (deref st r))"
proof -
  from stop obtain r where reg: "map_of (sessions st) sessionId = Some r"
    by (auto simp: stopSession_def split: option.splits)
  from stop reg have st': "st' =
      (cleanupSession (deref (emit (SessionStopped sessionId) (modify r (\<lambda>s. s\<lparr> isActive := False \<rparr>) st)) r)
         (emit (SessionStopped sessionId) (modify r (\<lambda>s. s\<lparr> isActive := False \<rparr>) st)))
        \<lparr> sessions := AList.delete sessionId (sessions st) \<rparr>"
    by (simp add: stopSession_def Let_def cleanupSession_effect)
  show thesis
  proof (rule that[OF reg])
    show "heap st' = (heap st)[r := (heap st ! r)\<lparr> isActive := False \<rparr>]"
      by (simp add: st' cleanupSession_effect)
    show "sessions st' = AList.delete sessionId (sessions st)"
      by (simp add: st')
    show "inflight st' = inflight st"
      by (simp add: st' cleanupSession_effect)
    show "events st' = events st @ [SessionStopped sessionId]"
      by (simp add: st' cleanupSession_effect)
    show "unlinked st' = unlinked st @ map seg_audioPath (musicSegments (deref st r))
                                    @ map aff_audioPath (affirmations (deref st r))"
      by (cases "r < length (heap st)")
         (simp_all add: st' cleanupSession_effect deref_def list_update_beyond)
  qed
qed



lemma owned_paths_inactive [simp]:
  "owned_paths (session\<lparr> isActive := False \<rparr>) = owned_paths session"
  "first_stage (session\<lparr> isActive := False \<rparr>) = first_stage session"
  by (simp_all add: owned_paths_def first_stage_def)

lemma deref_inactive [simp]:
  "owned_paths (deref (modify r (\<lambda>s. s\<lparr> isActive := False \<rparr>) st) x) = owned_paths (deref st x)"
  "first_stage (deref (modify r (\<lambda>s. s\<lparr> isActive := False \<rparr>) st) x) = first_stage (deref st x)"
  by (cases "r < length (heap st)"; cases "x = r";
      simp add: deref_def modify_def list_update_beyond)+

text \<open>The first turn of a stop: what the call has done when it is suspended.\<close>

lemma cleanupSession_segments_begin:
  "cleanupSession_segments False r sessionId Current 0 st
     = suspend (Cleanup r sessionId (first_stage (deref st r)))
         (st\<lparr> unlinked := unlinked st @ take 1 (owned_paths (deref st r)) \<rparr>)"
proof (cases "musicSegments (deref st r)")
  case (Cons seg segs)
  then show ?thesis
    by (simp add: cleanupSession_segments_def first_stage_def owned_paths_def unlink_def suspend_def)
next
  case Nil
  then show ?thesis
    by (cases "affirmations (deref st r)")
       (simp_all add: cleanupSession_segments_def cleanupSession_affirmations_def
          cleanupSession_end_def first_stage_def owned_paths_def unlink_def suspend_def)
qed

lemma stopSession_begin_effect:
  assumes started: "stopSession_begin sessionId st = Inr st'"
  obtains r where "map_of (sessions st) sessionId = Some r"
    and "heap st' = (heap st)[r := (heap st ! r)\<lparr> isActive := False \<rparr>]"
    and "sessions st' = sessions st"
    and "inflight st' = inflight st @ [Cleanup r sessionId (first_stage (deref st r))]"
    and "events st' = events st @ [SessionStopped sessionId]"
    and "unlinked st' = unlinked st @ take 1 (owned_paths (deref st r))"
proof -
  from started obtain r where reg: "map_of (sessions st) sessionId = Some r"
    by (auto simp: stopSession_begin_def split: option.splits)
  let ?st2 = "emit (SessionStopped sessionId) (modify r (\<lambda>s. s\<lparr> isActive := False \<rparr>) st)"
  from started reg have st': "st' = cleanupSession_segments False r sessionId Current 0 ?st2"
    by (simp add: stopSession_begin_def Let_def)
  show thesis
    by (rule that[OF reg]) (simp_all add: st' cleanupSession_segments_begin)
qed

lemma stopSession_begin_fails:
  "map_of (sessions st) sessionId = None \<Longrightarrow> stopSession_begin sessionId st = Inl SessionNotFound"
  by (simp add: stopSession_begin_def)

lemma stopSession_begin_succeeds:
  "map_of (sessions st) sessionId = Some r \<Longrightarrow> \<exists>st'. stopSession_begin sessionId st = Inr st'"
  by (simp add: stopSession_begin_def Let_def)

text \<open>A turn of a resumed stop touches no session object and no notification.\<close>

lemma stopSession_resume_frame:
  "heap (stopSession_resume r sessionId stage st) = heap st"
  "events (stopSession_resume r sessionId stage st) = events st"
  "sessions (stopSession_resume r sessionId stage st) = sessions st
   \<or> sessions (stopSession_resume r sessionId stage st) = AList.delete sessionId (sessions st)"
  "inflight (stopSession_resume r sessionId stage st) = inflight st
   \<or> (\<exists>stage'. inflight (stopSession_resume r sessionId stage st)
                  = inflight st @ [Cleanup r sessionId stage'])"
  by (auto simp: stopSession_resume_def cleanupSession_segments_def
        cleanupSession_affirmations_def cleanupSession_end_def Let_def
        split: stage.splits array_ref.splits)

lemma set_delete_subset: "set (AList.delete k al) \<subseteq> set al"
  by (auto simp: AList.delete_eq)

lemma settle_sessions:
  "sessions (settle t reply st) = sessions st
   \<or> (\<exists>sessionId. sessions (settle t reply st) = AList.delete sessionId (sessions st))"
proof (cases t)
  case (NextSegment r)
  show ?thesis
  proof (cases reply)
    case (NextReply services)
    show ?thesis
      by (cases services)
         (auto simp: settle_def NextSegment NextReply generateNextSegment_def Let_def
               split: sum.splits list.splits)
  qed (simp_all add: settle_def NextSegment)
next
  case (Cleanup r sessionId stage)
  show ?thesis
    using stopSession_resume_frame(3)[of r sessionId stage st]
    by (cases reply) (auto simp: settle_def Cleanup)
qed (cases reply; simp add: settle_def generateInitialSegments_effect
       generateAffirmationsForSession_effect)+

lemma resume_sessions:
  "sessions (resume k reply st) = sessions st
   \<or> (\<exists>sessionId. sessions (resume k reply st) = AList.delete sessionId (sessions st))"
  using settle_sessions[of "inflight st ! k" reply
          "st\<lparr> inflight := take k (inflight st) @ drop (Suc k) (inflight st) \<rparr>"]
  by (simp add: resume_def)

text \<open>No answer registers anything.\<close>

lemma resume_all_sessions:
  "set (sessions (resume_all answers st)) \<subseteq> set (sessions st)"
  "map_of (sessions st) sessionId = None
     \<Longrightarrow> map_of (sessions (resume_all answers st)) sessionId = None"
proof -
  have one: "set (sessions (resume k reply s)) \<subseteq> set (sessions s)
           \<and> (map_of (sessions s) sessionId = None
                \<longrightarrow> map_of (sessions (resume k reply s)) sessionId = None)" for k reply s
  proof -
    from resume_sessions[of k reply s]
    show ?thesis
    proof
      assume "sessions (resume k reply s) = sessions s"
      then show ?thesis by simp
    next
      assume "\<exists>sessionId. sessions (resume k reply s) = AList.delete sessionId (sessions s)"
      then obtain other where
        d: "sessions (resume k reply s) = AList.delete other (sessions s)" by blast
      show ?thesis
        using set_delete_subset[of other "sessions s"] by (simp add: d delete_conv')
    qed
  qed
  have "set (sessions (resume_all answers st)) \<subseteq> set (sessions st)
      \<and> (map_of (sessions st) sessionId = None
           \<longrightarrow> map_of (sessions (resume_all answers st)) sessionId = None)"
    unfolding resume_all_def
  proof (induction answers arbitrary: st)
    case Nil
    then show ?case by simp
  next
    case (Cons a answers)
    obtain k reply where a: "a = (k, reply)" by (cases a)
    from Cons.IH[of "resume k reply st"] one[of k reply st] show ?case
      by (simp add: a) blast
  qed
  then show "set (sessions (resume_all answers st)) \<subseteq> set (sessions st)"
    and "map_of (sessions st) sessionId = None
           \<Longrightarrow> map_of (sessions (resume_all answers st)) sessionId = None"
    by blast+
qed

section \<open>Invariants of the runs\<close>

lemma registry_ok_frame:
  assumes ok: "registry_ok st"
      and sub: "set (sessions st') \<subseteq> set (sessions st)"
      and dist: "distinct (map fst (sessions st'))"
      and len: "length (heap st') = length (heap st)"
      and ids: "\<And>x. x < length (heap st) \<Longrightarrow> session_id (deref st' x) = session_id (deref st x)"
  shows "registry_ok st'"
  unfolding registry_ok_def
proof (intro conjI ballI)
  show "distinct (map fst (sessions st'))" by (rule dist)
next
  fix entry assume "entry \<in> set (sessions st')"
  with sub have "entry \<in> set (sessions st)" by blast
  with ok have "snd entry < length (heap st) \<and> session_id (deref st (snd entry)) = fst entry"
    by (auto simp: registry_ok_def)
  with len ids[of "snd entry"]
  show "case entry of (k, r) \<Rightarrow> r < length (heap st') \<and> session_id (deref st' r) = k"
    by (cases entry) simp
qed

lemma tasks_ok_frame:
  assumes ok: "tasks_ok st"
      and sub: "set (inflight st') \<subseteq> set (inflight st) \<union> new"
      and len: "length (heap st) \<le> length (heap st')"
      and new: "\<And>t. t \<in> new \<Longrightarrow> task_ref t < length (heap st')"
  shows "tasks_ok st'"
  unfolding tasks_ok_def
proof
  fix t assume "t \<in> set (inflight st')"
  with sub have "t \<in> set (inflight st) \<or> t \<in> new" by blast
  then show "task_ref t < length (heap st')"
  proof
    assume "t \<in> set (inflight st)"
    with ok have "task_ref t < length (heap st)" by (simp add: tasks_ok_def)
    with len show ?thesis by simp
  qed (rule new)
qed

lemma registry_lookup:
  "registry_ok st \<Longrightarrow> map_of (sessions st) sessionId = Some r \<Longrightarrow>
   r < length (heap st) \<and> session_id (deref st r) = sessionId"
  by (auto simp: registry_ok_def dest!: map_of_SomeD)

lemma set_update_subset: "set (AList.update k v al) \<subseteq> insert (k, v) (set al)"
  by (induction al) auto

lemma invariant_create:
  assumes ok: "registry_ok st" "tasks_ok st"
  shows "registry_ok (fst (createStreamingSession options trackData sessionId now st))
       \<and> tasks_ok (fst (createStreamingSession options trackData sessionId now st))"
proof -
  obtain st' r where c: "createStreamingSession options trackData sessionId now st = (st', r)"
    by (cases "createStreamingSession options trackData sessionId now st")
  note e = createStreamingSession_effect[OF c]
  have reg: "registry_ok st'"
    unfolding registry_ok_def
  proof (intro conjI ballI)
    show "distinct (map fst (sessions st'))"
      using ok(1) by (simp add: e(3) registry_ok_def distinct_update)
  next
    fix entry assume "entry \<in> set (sessions st')"
    then have "entry = (sessionId, r) \<or> entry \<in> set (sessions st)"
      using set_update_subset[of sessionId r "sessions st"] by (auto simp: e(3))
    then show "case entry of (k, r) \<Rightarrow> r < length (heap st') \<and> session_id (deref st' r) = k"
    proof
      assume "entry = (sessionId, r)"
      then show ?thesis by (simp add: e(1,2) deref_def)
    next
      assume "entry \<in> set (sessions st)"
      with ok(1) have "snd entry < length (heap st) \<and> session_id (deref st (snd entry)) = fst entry"
        by (auto simp: registry_ok_def)
      then show ?thesis by (cases entry) (simp add: e(2) deref_def nth_append)
    qed
  qed
  have "tasks_ok st'"
    using ok(2) by (auto simp: tasks_ok_def e(1,2,4))
  with reg c show ?thesis by simp
qed

lemma invariant_update:
  assumes ok: "registry_ok st" "tasks_ok st"
      and upd: "updateSessionPosition sessionId position random st = Inr st'"
  shows "registry_ok st' \<and> tasks_ok st'"
proof -
  from upd obtain r where reg: "map_of (sessions st) sessionId = Some r"
    by (auto simp: updateSessionPosition_def split: option.splits)
  from registry_lookup[OF ok(1) reg] have ref: "r < length (heap st)" by simp
  note e = updateSessionPosition_effect[OF upd reg ref]
  have "registry_ok st'"
  proof (rule registry_ok_frame[OF ok(1)])
    show "session_id (deref st' x) = session_id (deref st x)" if "x < length (heap st)" for x
      using e(4)[of x] e(5) by (cases "x = r") simp_all
  qed (use ok(1) in \<open>simp_all add: e(1,3) registry_ok_def\<close>)
  moreover have "tasks_ok st'"
    by (rule tasks_ok_frame[OF ok(2), where new = "{NextSegment r}"])
       (use ref in \<open>auto simp: e(3,7)\<close>)
  ultimately show ?thesis by simp
qed

lemma invariant_stop:
  assumes ok: "registry_ok st" "tasks_ok st"
      and stop: "stopSession sessionId st = Inr st'"
  shows "registry_ok st' \<and> tasks_ok st'"
proof -
  from stop obtain r where
        h: "heap st' = (heap st)[r := (heap st ! r)\<lparr> isActive := False \<rparr>]"
    and s: "sessions st' = AList.delete sessionId (sessions st)"
    and i: "inflight st' = inflight st"
    by (rule stopSession_effect)
  have "registry_ok st'"
  proof (rule registry_ok_frame[OF ok(1)])
    show "set (sessions st') \<subseteq> set (sessions st)"
      by (auto simp: s AList.delete_eq)
    show "distinct (map fst (sessions st'))"
      using ok(1) by (simp add: s registry_ok_def distinct_delete)
    show "length (heap st') = length (heap st)" by (simp add: h)
    show "session_id (deref st' x) = session_id (deref st x)" if "x < length (heap st)" for x
      using deref_list_update[OF that h] by (simp add: deref_def)
  qed
  moreover have "tasks_ok st'"
    by (rule tasks_ok_frame[OF ok(2), where new = "{}"]) (simp_all add: i h)
  ultimately show ?thesis by simp
qed

lemma invariant_begin:
  assumes ok: "registry_ok st" "tasks_ok st"
      and started: "stopSession_begin sessionId st = Inr st'"
  shows "registry_ok st' \<and> tasks_ok st'"
proof -
  from started obtain r where
        reg: "map_of (sessions st) sessionId = Some r"
    and h: "heap st' = (heap st)[r := (heap st ! r)\<lparr> isActive := False \<rparr>]"
    and s: "sessions st' = sessions st"
    and i: "inflight st' = inflight st @ [Cleanup r sessionId (first_stage (deref st r))]"
    by (rule stopSession_begin_effect)
  from registry_lookup[OF ok(1) reg] have ref: "r < length (heap st)" by simp
  have "registry_ok st'"
  proof (rule registry_ok_frame[OF ok(1)])
    show "set (sessions st') \<subseteq> set (sessions st)" by (simp add: s)
    show "distinct (map fst (sessions st'))"
      using ok(1) by (simp add: s registry_ok_def)
    show "length (heap st') = length (heap st)" by (simp add: h)
    show "session_id (deref st' x) = session_id (deref st x)" if "x < length (heap st)" for x
      using deref_list_update[OF that h] by (simp add: deref_def)
  qed
  moreover have "tasks_ok st'"
    by (rule tasks_ok_frame[OF ok(2), where new = "{Cleanup r sessionId (first_stage (deref st r))}"])
       (use ref in \<open>auto simp: i h\<close>)
  ultimately show ?thesis by simp
qed

lemma invariant_sweep_fold:
  "registry_ok st \<and> tasks_ok st \<Longrightarrow>
   registry_ok (fold (\<lambda>sessionId s. case stopSession_begin sessionId s of Inl _ \<Rightarrow> s | Inr s' \<Rightarrow> s') ids st)
   \<and> tasks_ok (fold (\<lambda>sessionId s. case stopSession_begin sessionId s of Inl _ \<Rightarrow> s | Inr s' \<Rightarrow> s') ids st)"
proof (induction ids arbitrary: st)
  case Nil
  then show ?case by simp
next
  case (Cons sessionId ids)
  have "registry_ok (case stopSession_begin sessionId st of Inl _ \<Rightarrow> st | Inr s' \<Rightarrow> s')
      \<and> tasks_ok (case stopSession_begin sessionId st of Inl _ \<Rightarrow> st | Inr s' \<Rightarrow> s')"
    using Cons.prems invariant_begin[of st sessionId] by (auto split: sum.splits)
  from Cons.IH[OF this] show ?case by simp
qed

lemma invariant_settle:
  assumes ok: "registry_ok st" "tasks_ok st" and ref: "task_ref t < length (heap st)"
  shows "registry_ok (settle t reply st) \<and> tasks_ok (settle t reply st)"
proof -
  have frame: "registry_ok st' \<and> tasks_ok st'"
    if "sessions st' = sessions st"
       "\<forall>t' \<in> set (inflight st'). task_ref t' < length (heap st)"
       "heap st' = heap st \<or> (\<exists>f. heap st' = (heap st)[task_ref t := f (heap st ! task_ref t)]
             \<and> session_id (f (heap st ! task_ref t)) = session_id (heap st ! task_ref t))" for st'
  proof -
    have len: "length (heap st') = length (heap st)"
      using that(3) by auto
    have ids: "session_id (deref st' x) = session_id (deref st x)" if "x < length (heap st)" for x
    proof (cases "x = task_ref t")
      case True
      with \<open>heap st' = heap st \<or> _\<close> that show ?thesis by (auto simp: deref_def)
    next
      case False
      with \<open>heap st' = heap st \<or> _\<close> that show ?thesis by (auto simp: deref_def)
    qed
    have "registry_ok st'"
      by (rule registry_ok_frame[OF ok(1)]) (use ok(1) that(1) len ids in \<open>simp_all add: registry_ok_def\<close>)
    moreover have "tasks_ok st'"
      using that(2) by (simp add: tasks_ok_def len)
    ultimately show ?thesis by simp
  qed
  have old: "\<forall>t' \<in> set (inflight st). task_ref t' < length (heap st)"
    using ok(2) by (simp add: tasks_ok_def)
  show ?thesis
  proof (cases t)
    case (InitialSegments r trackData d)
    show ?thesis
    proof (cases reply)
      case (InitialReply services)
      have "registry_ok (generateInitialSegments r trackData d services st)
          \<and> tasks_ok (generateInitialSegments r trackData d services st)"
      proof (rule frame)
        show "\<forall>t' \<in> set (inflight (generateInitialSegments r trackData d services st)).
                 task_ref t' < length (heap st)"
          using old by (cases services) (auto simp: generateInitialSegments_effect)
      qed (auto simp: generateInitialSegments_effect InitialSegments split: option.splits)
      then show ?thesis by (simp add: settle_def InitialSegments InitialReply)
    qed (use ok in \<open>simp_all add: settle_def InitialSegments\<close>)
  next
    case (AffirmationsFor r texts)
    show ?thesis
    proof (cases reply)
      case (AffirmationsReply services)
      have "registry_ok (generateAffirmationsForSession r texts services st)
          \<and> tasks_ok (generateAffirmationsForSession r texts services st)"
        by (rule frame)
           (use old in \<open>auto simp: generateAffirmationsForSession_effect AffirmationsFor
                             split: option.splits\<close>)
      then show ?thesis by (simp add: settle_def AffirmationsFor AffirmationsReply)
    qed (use ok in \<open>simp_all add: settle_def AffirmationsFor\<close>)
  next
    case (NextSegment r)
    show ?thesis
    proof (cases reply)
      case (NextReply services)
      have "registry_ok (generateNextSegment r services st) \<and> tasks_ok (generateNextSegment r services st)"
      proof (cases "services = None \<or> services = Some Failed")
        case True
        show ?thesis
          by (rule frame) (use old in \<open>simp_all add: generateNextSegment_failed[OF True]\<close>)
      next
        case False
        then obtain segmentId chosen now where g: "services = Some (Generated segmentId chosen now)"
          by (cases services) (auto intro: generation.exhaust)
        from ref NextSegment have r: "r < length (heap st)" by simp
        note e = generateNextSegment_effect[OF r, of segmentId chosen now]
        show ?thesis
          unfolding g by (rule frame) (use old in \<open>auto simp: e NextSegment\<close>)
      qed
      then show ?thesis by (simp add: settle_def NextSegment NextReply)
    qed (use ok in \<open>simp_all add: settle_def NextSegment\<close>)
  next
    case (Cleanup r sessionId stage)
    show ?thesis
    proof (cases reply)
      case CleanupReply
      let ?st' = "stopSession_resume r sessionId stage st"
      note e = stopSession_resume_frame[of r sessionId stage st]
      from ref Cleanup have r: "r < length (heap st)" by simp
      have "registry_ok ?st'"
      proof (rule registry_ok_frame[OF ok(1)])
        show "set (sessions ?st') \<subseteq> set (sessions st)"
          using e(3) set_delete_subset[of sessionId "sessions st"] by auto
        show "distinct (map fst (sessions ?st'))"
          using ok(1) e(3) by (auto simp: registry_ok_def distinct_delete)
        show "length (heap ?st') = length (heap st)"
          by (simp add: e(1))
        show "session_id (deref ?st' x) = session_id (deref st x)"
          if "x < length (heap st)" for x
          by (simp add: deref_def e(1))
      qed
      moreover have "tasks_ok ?st'"
        using e(4) old r by (auto simp: tasks_ok_def e(1))
      ultimately show ?thesis by (simp add: settle_def Cleanup CleanupReply)
    qed (use ok in \<open>simp_all add: settle_def Cleanup\<close>)
  qed
qed

lemma registry_ok_inflight_update [simp]:
  "registry_ok (st\<lparr> inflight := ts \<rparr>) = registry_ok st"
  by (simp add: registry_ok_def deref_def)

lemma invariant_resume:
  assumes ok: "registry_ok st" "tasks_ok st"
  shows "registry_ok (resume k reply st) \<and> tasks_ok (resume k reply st)"
proof (cases "k < length (inflight st) \<and> matches (inflight st ! k) reply")
  case False
  then have "resume k reply st = st" by (auto simp: resume_def)
  with ok show ?thesis by simp
next
  case True
  let ?st0 = "st\<lparr> inflight := take k (inflight st) @ drop (Suc k) (inflight st) \<rparr>"
  have "tasks_ok ?st0"
    using ok(2) by (auto simp: tasks_ok_def dest: in_set_takeD in_set_dropD)
  moreover have "task_ref (inflight st ! k) < length (heap ?st0)"
    using ok(2) True by (simp add: tasks_ok_def)
  ultimately show ?thesis
    using True ok(1) invariant_settle[of ?st0 "inflight st ! k" reply] by (simp add: resume_def)
qed

lemma invariant_step:
  "registry_ok st \<and> tasks_ok st \<Longrightarrow> registry_ok (step a st) \<and> tasks_ok (step a st)"
proof (cases a)
  case (Create options trackData sessionId now)
  assume "registry_ok st \<and> tasks_ok st"
  then show ?thesis using invariant_create[of st] by (simp add: Create)
next
  case (UpdatePosition sessionId position random)
  assume "registry_ok st \<and> tasks_ok st"
  then show ?thesis
    using invariant_update[of st sessionId position random]
    by (auto simp: UpdatePosition split: sum.splits)
next
  case (Stop sessionId)
  assume "registry_ok st \<and> tasks_ok st"
  then show ?thesis
    using invariant_stop[of st sessionId] by (auto simp: Stop split: sum.splits)
next
  case (BeginStop sessionId)
  assume "registry_ok st \<and> tasks_ok st"
  then show ?thesis
    using invariant_begin[of st sessionId] by (auto simp: BeginStop split: sum.splits)
next
  case (Sweep now)
  assume "registry_ok st \<and> tasks_ok st"
  then show ?thesis
    using invariant_sweep_fold by (simp add: Sweep cleanupInactiveSessions_def)
next
  case (Resume k reply)
  assume "registry_ok st \<and> tasks_ok st"
  then show ?thesis using invariant_resume[of st k reply] by (simp add: Resume)
qed

lemma invariant_run:
  "registry_ok st \<and> tasks_ok st \<Longrightarrow> registry_ok (run acts st) \<and> tasks_ok (run acts st)"
  unfolding run_def
proof (induction acts arbitrary: st)
  case Nil
  then show ?case by simp
next
  case (Cons a acts)
  from Cons.IH[OF invariant_step[OF Cons.prems]] show ?case by simp
qed

lemma invariant_reachable:
  "registry_ok (run acts initial)" "tasks_ok (run acts initial)"
  using invariant_run[of initial acts] by (simp_all add: registry_ok_def tasks_ok_def initial_def)

lemma resume_all_invariant:
  "registry_ok st \<and> tasks_ok st \<Longrightarrow>
   registry_ok (resume_all answers st) \<and> tasks_ok (resume_all answers st)"
  unfolding resume_all_def
proof (induction answers arbitrary: st)
  case Nil
  then show ?case by simp
next
  case (Cons a answers)
  obtain k reply where a: "a = (k, reply)" by (cases a)
  from Cons.prems have "registry_ok (resume k reply st) \<and> tasks_ok (resume k reply st)"
    using invariant_resume[of st k reply] by simp
  from Cons.IH[OF this] show ?case by (simp add: a)
qed

section \<open>The growth trigger\<close>

subsection \<open>The segment index is never written\<close>




lemma index_ok_inflight_update [simp]:
  "index_ok (st\<lparr> inflight := ts \<rparr>) = index_ok st"
  by (simp add: index_ok_def)









subsection \<open>The segment end and the trigger\<close>





section \<open>Generation calls in flight\<close>

text \<open>
  Claim C3, as the code has it. There is no in-flight guard: every position update of
  a registered active session that crosses the growth trigger starts a next-segment call,
  whatever is already in flight, so the number of outstanding calls of the session goes
  up by one each time.
\<close>

theorem every_trigger_starts_a_call:
  assumes reg: "map_of (sessions st) sessionId = Some r"
      and ref: "r < length (heap st)"
      and act: "isActive (deref st r)"
      and crosses: "position \<ge> segmentEndTime (deref st r) - 30"
  shows "\<exists>st'. updateSessionPosition sessionId position random st = Inr st'
           \<and> inflight st' = inflight st @ [NextSegment r]
           \<and> outstanding r st' = outstanding r st + 1"
proof -
  from updateSessionPosition_succeeds[OF reg act] obtain st' where
    upd: "updateSessionPosition sessionId position random st = Inr st'" by blast
  from updateSessionPosition_effect(7)[OF upd reg ref] crosses
  have "inflight st' = inflight st @ [NextSegment r]" by simp
  with upd show ?thesis by (simp add: outstanding_def)
qed

theorem every_trigger_starts_a_call_witness:
  "map_of (sessions demo_one_update) ''s1'' = Some 0
   \<and> 0 < length (heap demo_one_update)
   \<and> isActive (deref demo_one_update 0)
   \<and> segmentEndTime (deref demo_one_update 0) - 30 \<le> 31
   \<and> outstanding 0 demo_one_update = 1
   \<and> outstanding 0 (step (UpdatePosition ''s1'' 31 0) demo_one_update) = 2"
proof -
  have reg: "map_of (sessions demo_one_update) ''s1'' = Some 0" by code_simp
  have ref: "0 < length (heap demo_one_update)" by code_simp
  have act: "isActive (deref demo_one_update 0)" by code_simp
  have crosses: "31 \<ge> segmentEndTime (deref demo_one_update 0) - 30" by code_simp
  have one: "outstanding 0 demo_one_update = 1" by code_simp
  from every_trigger_starts_a_call[OF reg ref act crosses, of 0] obtain st' where
    "updateSessionPosition ''s1'' 31 0 demo_one_update = Inr st'"
    "outstanding 0 st' = outstanding 0 demo_one_update + 1" by blast
  with reg ref act crosses one show ?thesis by simp
qed

text \<open>
  Claim C3 as stated fails: after creation the updates to positions 30 and 31 both cross
  the trigger (no segment has arrived, so the segment end is taken as 60), and with no
  answer from the generator in between two next-segment calls of the one session are in
  flight.
\<close>

theorem single_flight_counterexample:
  "inflight demo_one_update
     = [InitialSegments 0 demo_track 60, AffirmationsFor 0 [''I am calm''], NextSegment 0]
   \<and> inflight demo_two_updates
     = [InitialSegments 0 demo_track 60, AffirmationsFor 0 [''I am calm''], NextSegment 0,
        NextSegment 0]
   \<and> outstanding 0 demo_two_updates = 2"
  by code_simp

section \<open>Answers that arrive after a stop\<close>

lemma unregistered_lookups:
  assumes ok: "registry_ok st" and none: "map_of (sessions st) sessionId = None"
  shows "getSession sessionId st = None"
    and "getStreamingUrl sessionId segmentIndex st = Inl SessionNotFoundOrInactive"
    and "\<forall>session \<in> set (getUserSessions user st). session_id session \<noteq> sessionId"
proof -
  show "getSession sessionId st = None"
    using none by (simp add: getSession_def)
  show "getStreamingUrl sessionId segmentIndex st = Inl SessionNotFoundOrInactive"
    using none by (simp add: getStreamingUrl_def)
  show "\<forall>session \<in> set (getUserSessions user st). session_id session \<noteq> sessionId"
  proof
    fix session assume "session \<in> set (getUserSessions user st)"
    then obtain k r where entry: "(k, r) \<in> set (sessions st)" and s: "session = deref st r"
      by (auto simp: getUserSessions_def)
    from ok entry have "session_id (deref st r) = k" by (auto simp: registry_ok_def)
    moreover from none entry have "k \<noteq> sessionId"
      by (auto simp: map_of_eq_None_iff image_iff)
    ultimately show "session_id session \<noteq> sessionId" by (simp add: s)
  qed
qed

text \<open>
  Claim C4, as the code has it. Stopping cancels nothing: the in-flight calls stay in
  flight. When a next-segment call of the stopped session is answered afterwards, the rest
  of \<^verbatim>\<open>generateNextSegment\<close> runs on the session object it captured: the new segment is
  pushed, the oldest one is dropped and its file unlinked when the buffer is over
  \<^verbatim>\<open>bufferSize + 2\<close> (and nothing is unlinked otherwise), and \<^verbatim>\<open>newSegmentReady\<close> is
  emitted for the stopped id. That completion leaves the table as it is, and no answer,
  whatever arrives and in whatever order, registers anything: the stopped id stays
  unregistered, \<^verbatim>\<open>getSession\<close> and \<^verbatim>\<open>getStreamingUrl\<close> do not find it, and no session
  listed by \<^verbatim>\<open>getUserSessions\<close> carries it.
\<close>

theorem late_completion:
  fixes segmentId chosen :: string and now :: int
  assumes stop: "stopSession sessionId (run acts initial) = Inr st1"
      and reg: "map_of (sessions (run acts initial)) sessionId = Some r"
      and task: "k < length (inflight st1)" "inflight st1 ! k = NextSegment r"
  defines "st2 \<equiv> resume k (NextReply (Some (Generated segmentId chosen now))) st1"
  defines "newSegment \<equiv>
             \<lparr> seg_id = segmentId,
               seg_audioPath = path_join outputDir (segmentId @ ''.wav''),
               seg_duration = 60, seg_prompt = chosen, seg_generatedAt = now \<rparr>"
  defines "pushed \<equiv> musicSegments (deref st1 r) @ [newSegment]"
  shows "inflight st1 = inflight (run acts initial)
       \<and> events st2 = events st1 @ [NewSegmentReady sessionId newSegment]
       \<and> musicSegments (deref st2 r)
           = (if int (length pushed) > bufferSize (deref st1 r) + 2 then tl pushed else pushed)
       \<and> unlinked st2
           = unlinked st1 @ (if int (length pushed) > bufferSize (deref st1 r) + 2
                             then [seg_audioPath (hd pushed)] else [])
       \<and> sessions st2 = sessions st1
       \<and> set (sessions (resume_all answers st1)) \<subseteq> set (sessions st1)
       \<and> getSession sessionId (resume_all answers st1) = None
       \<and> getStreamingUrl sessionId segmentIndex (resume_all answers st1)
           = Inl SessionNotFoundOrInactive
       \<and> (\<forall>session \<in> set (getUserSessions user (resume_all answers st1)).
             session_id session \<noteq> sessionId)"
proof -
  let ?st = "run acts initial"
  note inv = invariant_reachable[of acts]
  from registry_lookup[OF inv(1) reg]
  have ref: "r < length (heap ?st)" and sid: "session_id (deref ?st r) = sessionId" by simp_all
  from stop obtain r' where
        r': "map_of (sessions ?st) sessionId = Some r'"
    and h: "heap st1 = (heap ?st)[r' := (heap ?st ! r')\<lparr> isActive := False \<rparr>]"
    and s: "sessions st1 = AList.delete sessionId (sessions ?st)"
    and i: "inflight st1 = inflight ?st"
    by (rule stopSession_effect)
  from r' reg have [simp]: "r' = r" by simp
  have ref1: "r < length (heap st1)" using ref by (simp add: h)
  have sid1: "session_id (deref st1 r) = sessionId"
    using sid ref by (simp add: deref_def h)
  have inv1: "registry_ok st1 \<and> tasks_ok st1"
    using invariant_stop[OF inv stop] .
  have none1: "map_of (sessions st1) sessionId = None"
    by (simp add: s AList.delete_conv')
  let ?rest = "st1\<lparr> inflight := take k (inflight st1) @ drop (Suc k) (inflight st1) \<rparr>"
  have st2: "st2 = generateNextSegment r (Some (Generated segmentId chosen now)) ?rest"
    using task by (simp add: st2_def resume_def matches_def settle_def)
  have ref0: "r < length (heap ?rest)" using ref1 by simp
  have d0: "deref ?rest r = deref st1 r" by (simp add: deref_def)
  note e = generateNextSegment_effect[OF ref0, of segmentId chosen now, folded st2, unfolded d0,
             folded newSegment_def, folded pushed_def]
  have ev: "events st2 = events st1 @ [NewSegmentReady sessionId newSegment]"
    using e(3) by (simp add: sid1)
  have ms: "musicSegments (deref st2 r)
           = (if int (length pushed) > bufferSize (deref st1 r) + 2 then tl pushed else pushed)"
    using e(4) ref1 by (simp add: deref_def)
  have ul: "unlinked st2
           = unlinked st1 @ (if int (length pushed) > bufferSize (deref st1 r) + 2
                             then [seg_audioPath (hd pushed)] else [])"
    using e(5) by simp
  have ss: "sessions st2 = sessions st1"
    using e(1) by simp
  let ?fin = "resume_all answers st1"
  have fin_s: "set (sessions ?fin) \<subseteq> set (sessions st1)" by (rule resume_all_sessions(1))
  have fin_ok: "registry_ok ?fin" using resume_all_invariant[OF inv1] by simp
  have fin_none: "map_of (sessions ?fin) sessionId = None"
    by (rule resume_all_sessions(2)[OF none1])
  note u = unregistered_lookups[OF fin_ok fin_none]
  from i ev ms ul ss fin_s u(1) u(2)[of segmentIndex] u(3)[of user] show ?thesis by simp
qed

theorem late_completion_witness:
  "stopSession ''s1'' demo_one_update = Inr demo_stopped
   \<and> map_of (sessions demo_one_update) ''s1'' = Some 0
   \<and> 2 < length (inflight demo_stopped)
   \<and> inflight demo_stopped ! 2 = NextSegment 0
   \<and> events demo_late = events demo_stopped @
        [NewSegmentReady ''s1''
           \<lparr> seg_id = ''late'', seg_audioPath = ''/tmp/generated_music/late.wav'',
             seg_duration = 60, seg_prompt = ''Soft acoustic guitar'', seg_generatedAt = 2000 \<rparr>]
   \<and> length (musicSegments (deref demo_late 0)) = 1
   \<and> unlinked demo_late = unlinked demo_stopped
   \<and> length (musicSegments (deref demo_full_stopped 0)) = 5
   \<and> length (musicSegments (deref demo_full_late 0)) = 5
   \<and> unlinked demo_full_late
       = unlinked demo_full_stopped @ [''/tmp/generated_music/segment_.wav'']
   \<and> getSession ''s1'' (resume_all demo_answers demo_stopped) = None
   \<and> getStreamingUrl ''s1'' 0 (resume_all demo_answers demo_stopped)
       = Inl SessionNotFoundOrInactive
   \<and> getUserSessions ''test-user-123'' (resume_all demo_answers demo_stopped) = []"
proof -
  have listed: "getUserSessions ''test-user-123'' (resume_all demo_answers demo_stopped) = []"
    by code_simp
  have stop: "stopSession ''s1'' (run [Create demo_options demo_track ''s1'' 0,
                                       UpdatePosition ''s1'' 30 0] initial) = Inr demo_stopped"
    unfolding demo_one_update_def[symmetric] by code_simp
  have reg: "map_of (sessions (run [Create demo_options demo_track ''s1'' 0,
                                    UpdatePosition ''s1'' 30 0] initial)) ''s1'' = Some 0"
    unfolding demo_one_update_def[symmetric] by code_simp
  have task: "2 < length (inflight demo_stopped)" "inflight demo_stopped ! 2 = NextSegment 0"
    by code_simp+
  have buf: "musicSegments (deref demo_stopped 0) = []" "bufferSize (deref demo_stopped 0) = 3"
    by code_simp+
  have full: "length (musicSegments (deref demo_full_stopped 0)) = 5"
    "length (musicSegments (deref demo_full_late 0)) = 5"
    "unlinked demo_full_late
       = unlinked demo_full_stopped @ [''/tmp/generated_music/segment_.wav'']"
    by code_simp+
  from late_completion[OF stop reg task, of "''late''" "''Soft acoustic guitar''" 2000
         demo_answers 0]
  show ?thesis
    using stop reg task listed full
    by (simp add: demo_late_def demo_one_update_def buf path_join_def outputDir_def)
qed

text \<open>
  Claim C4 as stated fails in its first half: the answer that arrives after the stop is
  not discarded. The stopped session object, whose buffer was empty, holds the late
  segment afterwards, and a \<^verbatim>\<open>newSegmentReady\<close> notification for the stopped id has
  been emitted.
\<close>

theorem late_completion_counterexample:
  "map_of (sessions demo_stopped) ''s1'' = None
   \<and> isActive (deref demo_stopped 0) = False
   \<and> inflight demo_stopped ! 2 = NextSegment 0
   \<and> musicSegments (deref demo_stopped 0) = []
   \<and> map seg_id (musicSegments (deref demo_late 0)) = [''late'']
   \<and> length (events demo_late) = length (events demo_stopped) + 1
   \<and> last (events demo_late)
       = NewSegmentReady ''s1''
           \<lparr> seg_id = ''late'', seg_audioPath = ''/tmp/generated_music/late.wav'',
             seg_duration = 60, seg_prompt = ''Soft acoustic guitar'', seg_generatedAt = 2000 \<rparr>
   \<and> demo_late \<noteq> demo_stopped"
  by code_simp

section \<open>The bound on the buffer\<close>

lemma buffer_ok_update:
  assumes ok: "buffer_ok st"
      and h: "heap st' = (heap st)[r := v]"
      and v: "r < length (heap st) \<Longrightarrow> - 2 \<le> bufferSize v
                \<Longrightarrow> int (length (musicSegments v)) \<le> bufferSize v + 2"
  shows "buffer_ok st'"
  unfolding buffer_ok_def
proof (intro ballI impI)
  fix session assume s: "session \<in> set (heap st')" and b: "- 2 \<le> bufferSize session"
  show "int (length (musicSegments session)) \<le> bufferSize session + 2"
  proof (cases "r < length (heap st)")
    case True
    from s have "session = v \<or> session \<in> set (heap st)"
      using set_update_subset_insert[of "heap st" r v] by (auto simp: h)
    with v[OF True] ok b show ?thesis by (auto simp: buffer_ok_def)
  next
    case False
    with s h have "session \<in> set (heap st)" by (simp add: list_update_beyond)
    with ok b show ?thesis by (simp add: buffer_ok_def)
  qed
qed

lemma buffer_ok_same_heap: "buffer_ok st \<Longrightarrow> heap st' = heap st \<Longrightarrow> buffer_ok st'"
  by (simp add: buffer_ok_def)

lemma buffer_ok_entry:
  "buffer_ok st \<Longrightarrow> r < length (heap st) \<Longrightarrow> - 2 \<le> bufferSize (heap st ! r) \<Longrightarrow>
   int (length (musicSegments (heap st ! r))) \<le> bufferSize (heap st ! r) + 2"
  by (simp add: buffer_ok_def)

lemma buffer_create:
  assumes ok: "buffer_ok st"
  shows "buffer_ok (fst (createStreamingSession options trackData sessionId now st))"
proof -
  obtain st' r where c: "createStreamingSession options trackData sessionId now st = (st', r)"
    by (cases "createStreamingSession options trackData sessionId now st")
  from ok have "buffer_ok st'"
    by (auto simp: buffer_ok_def createStreamingSession_effect(2)[OF c])
  with c show ?thesis by simp
qed

lemma buffer_update:
  assumes ok: "buffer_ok st" and reg_ok: "registry_ok st"
      and upd: "updateSessionPosition sessionId position random st = Inr st'"
  shows "buffer_ok st'"
proof -
  from upd obtain r where reg: "map_of (sessions st) sessionId = Some r"
    by (auto simp: updateSessionPosition_def split: option.splits)
  from registry_lookup[OF reg_ok reg] have ref: "r < length (heap st)" by simp
  note e = updateSessionPosition_effect[OF upd reg ref]
  have h: "heap st' = (heap st)[r := deref st' r]"
    by (rule heap_as_update) (simp_all add: e(3,4))
  show ?thesis
  proof (rule buffer_ok_update[OF ok h])
    assume "- 2 \<le> bufferSize (deref st' r)"
    with buffer_ok_entry[OF ok ref]
    show "int (length (musicSegments (deref st' r))) \<le> bufferSize (deref st' r) + 2"
      unfolding e(5) by (simp add: deref_def)
  qed
qed

lemma buffer_stop:
  assumes ok: "buffer_ok st" and stop: "stopSession sessionId st = Inr st'"
  shows "buffer_ok st'"
proof -
  from stop obtain r where
    h: "heap st' = (heap st)[r := (heap st ! r)\<lparr> isActive := False \<rparr>]"
    by (rule stopSession_effect)
  show ?thesis
    by (rule buffer_ok_update[OF ok h]) (use buffer_ok_entry[OF ok] in simp)
qed

lemma buffer_begin:
  assumes ok: "buffer_ok st" and started: "stopSession_begin sessionId st = Inr st'"
  shows "buffer_ok st'"
proof -
  from started obtain r where
    h: "heap st' = (heap st)[r := (heap st ! r)\<lparr> isActive := False \<rparr>]"
    by (rule stopSession_begin_effect)
  show ?thesis
    by (rule buffer_ok_update[OF ok h]) (use buffer_ok_entry[OF ok] in simp)
qed

lemma buffer_settle:
  assumes ok: "buffer_ok st" and ref: "task_ref t < length (heap st)"
  shows "buffer_ok (settle t reply st)"
proof (cases t)
  case (InitialSegments r trackData d)
  show ?thesis
  proof (cases reply)
    case (InitialReply services)
    show ?thesis
    proof (cases services)
      case None
      with ok show ?thesis
        by (auto simp: settle_def InitialSegments InitialReply generateInitialSegments_effect
                 intro: buffer_ok_same_heap)
    next
      case (Some env)
      let ?opts = "\<lparr> prompt = [], duration = d, trackType = track_trackType trackData,
                      moodTags = (case track_moodTags trackData of
                                    None \<Rightarrow> [''peaceful'', ''calm''] | Some tags \<Rightarrow> tags),
                      outputPath = None \<rparr>"
      let ?segs = "generateStreamingSegments ?opts (bufferSize (heap st ! r)) env"
      have h: "heap (generateInitialSegments r trackData d (Some env) st)
                 = (heap st)[r := (heap st ! r)\<lparr> musicSegments := ?segs \<rparr>]"
        by (simp add: generateInitialSegments_effect)
      have "buffer_ok (generateInitialSegments r trackData d (Some env) st)"
      proof (rule buffer_ok_update[OF ok h])
        assume "- 2 \<le> bufferSize ((heap st ! r)\<lparr> musicSegments := ?segs \<rparr>)"
        moreover have "length ?segs \<le> nat (bufferSize (heap st ! r))"
          by (rule generateStreamingSegments_props(1))
        ultimately show "int (length (musicSegments ((heap st ! r)\<lparr> musicSegments := ?segs \<rparr>)))
                \<le> bufferSize ((heap st ! r)\<lparr> musicSegments := ?segs \<rparr>) + 2"
          by simp
      qed
      then show ?thesis by (simp add: settle_def InitialSegments InitialReply Some)
    qed
  qed (use ok in \<open>simp_all add: settle_def InitialSegments\<close>)
next
  case (AffirmationsFor r texts)
  show ?thesis
  proof (cases reply)
    case (AffirmationsReply services)
    show ?thesis
    proof (cases services)
      case None
      with ok show ?thesis
        by (auto simp: settle_def AffirmationsFor AffirmationsReply
                 generateAffirmationsForSession_effect intro: buffer_ok_same_heap)
    next
      case (Some synthesized)
      have h: "heap (generateAffirmationsForSession r texts (Some synthesized) st)
                 = (heap st)[r := (heap st ! r)\<lparr> affirmations := synthesized \<rparr>]"
        by (simp add: generateAffirmationsForSession_effect)
      have "buffer_ok (generateAffirmationsForSession r texts (Some synthesized) st)"
        by (rule buffer_ok_update[OF ok h]) (use buffer_ok_entry[OF ok] in simp)
      then show ?thesis by (simp add: settle_def AffirmationsFor AffirmationsReply Some)
    qed
  qed (use ok in \<open>simp_all add: settle_def AffirmationsFor\<close>)
next
  case (NextSegment r)
  show ?thesis
  proof (cases reply)
    case (NextReply services)
    have "buffer_ok (generateNextSegment r services st)"
    proof (cases "services = None \<or> services = Some Failed")
      case True
      show ?thesis
        by (rule buffer_ok_same_heap[OF ok]) (simp add: generateNextSegment_failed[OF True])
    next
      case False
      then obtain segmentId chosen now where g: "services = Some (Generated segmentId chosen now)"
        by (cases services) (auto intro: generation.exhaust)
      from ref NextSegment have r: "r < length (heap st)" by simp
      note e = generateNextSegment_effect[OF r, of segmentId chosen now]
      show ?thesis
        unfolding g
      proof (rule buffer_ok_update[OF ok e(4)])
        let ?new = "\<lparr> seg_id = segmentId,
                       seg_audioPath = path_join outputDir (segmentId @ ''.wav''),
                       seg_duration = 60, seg_prompt = chosen, seg_generatedAt = now \<rparr>"
        let ?pushed = "musicSegments (deref st r) @ [?new]"
        let ?v = "(heap st ! r)\<lparr> musicSegments :=
                     (if int (length ?pushed) > bufferSize (deref st r) + 2 then tl ?pushed
                      else ?pushed) \<rparr>"
        assume "- 2 \<le> bufferSize ?v"
        then have b: "- 2 \<le> bufferSize (heap st ! r)" by simp
        from buffer_ok_entry[OF ok r b]
        show "int (length (musicSegments ?v)) \<le> bufferSize ?v + 2"
          by (simp add: deref_def)
      qed
    qed
    then show ?thesis by (simp add: settle_def NextSegment NextReply)
  qed (use ok in \<open>simp_all add: settle_def NextSegment\<close>)
next
  case (Cleanup r sessionId stage)
  show ?thesis
  proof (cases reply)
    case CleanupReply
    have "buffer_ok (stopSession_resume r sessionId stage st)"
      by (rule buffer_ok_same_heap[OF ok]) (simp add: stopSession_resume_frame)
    then show ?thesis by (simp add: settle_def Cleanup CleanupReply)
  qed (use ok in \<open>simp_all add: settle_def Cleanup\<close>)
qed

lemma buffer_ok_inflight_update [simp]:
  "buffer_ok (st\<lparr> inflight := ts \<rparr>) = buffer_ok st"
  by (simp add: buffer_ok_def)

lemma buffer_step:
  assumes inv: "registry_ok st \<and> tasks_ok st" and ok: "buffer_ok st"
  shows "buffer_ok (step a st)"
proof (cases a)
  case (Create options trackData sessionId now)
  with buffer_create[OF ok] show ?thesis by simp
next
  case (UpdatePosition sessionId position random)
  show ?thesis
  proof (cases "updateSessionPosition sessionId position random st")
    case (Inl e)
    with ok show ?thesis by (simp add: UpdatePosition)
  next
    case (Inr st')
    with buffer_update[OF ok _ Inr] inv show ?thesis by (simp add: UpdatePosition)
  qed
next
  case (Stop sessionId)
  show ?thesis
  proof (cases "stopSession sessionId st")
    case (Inl e)
    with ok show ?thesis by (simp add: Stop)
  next
    case (Inr st')
    with buffer_stop[OF ok Inr] show ?thesis by (simp add: Stop)
  qed
next
  case (BeginStop sessionId)
  show ?thesis
  proof (cases "stopSession_begin sessionId st")
    case (Inl e)
    with ok show ?thesis by (simp add: BeginStop)
  next
    case (Inr st')
    with buffer_begin[OF ok Inr] show ?thesis by (simp add: BeginStop)
  qed
next
  case (Sweep now)
  have "buffer_ok (fold (\<lambda>sessionId s. case stopSession_begin sessionId s of Inl _ \<Rightarrow> s | Inr s' \<Rightarrow> s')
                        ids st)" for ids
    using ok
  proof (induction ids arbitrary: st)
    case Nil
    then show ?case by simp
  next
    case (Cons sessionId ids)
    have "buffer_ok (case stopSession_begin sessionId st of Inl _ \<Rightarrow> st | Inr s' \<Rightarrow> s')"
      using Cons.prems buffer_begin[of st sessionId] by (auto split: sum.splits)
    from Cons.IH[OF this] show ?case by simp
  qed
  then show ?thesis by (simp add: Sweep cleanupInactiveSessions_def)
next
  case (Resume k reply)
  show ?thesis
  proof (cases "k < length (inflight st) \<and> matches (inflight st ! k) reply")
    case False
    then have "resume k reply st = st" by (auto simp: resume_def)
    with ok show ?thesis by (simp add: Resume)
  next
    case True
    let ?st0 = "st\<lparr> inflight := take k (inflight st) @ drop (Suc k) (inflight st) \<rparr>"
    have "task_ref (inflight st ! k) < length (heap ?st0)"
      using inv True by (simp add: tasks_ok_def)
    moreover have "buffer_ok ?st0" using ok by simp
    ultimately have "buffer_ok (settle (inflight st ! k) reply ?st0)"
      by (intro buffer_settle)
    with True show ?thesis by (simp add: Resume resume_def)
  qed
qed

lemma buffer_run:
  "registry_ok st \<and> tasks_ok st \<Longrightarrow> buffer_ok st \<Longrightarrow> buffer_ok (run acts st)"
  unfolding run_def
proof (induction acts arbitrary: st)
  case Nil
  then show ?case by simp
next
  case (Cons a acts)
  from Cons.IH[OF invariant_step[OF Cons.prems(1)] buffer_step[OF Cons.prems]]
  show ?case by simp
qed

lemma buffer_reachable: "buffer_ok (run acts initial)"
  by (rule buffer_run) (simp_all add: registry_ok_def tasks_ok_def buffer_ok_def initial_def)

text \<open>
  Claim C5, as the code has it. In every state that a run of the service reaches
  (between any two turns of the event loop, so in every state at rest too), every session
  object whose \<^verbatim>\<open>bufferSize\<close> is at least \<open>-2\<close>, and so every session with a positive
  \<^verbatim>\<open>bufferSize\<close>, holds at most \<^verbatim>\<open>bufferSize + 2\<close> segments. When a newly generated
  segment is pushed and the count then exceeds \<^verbatim>\<open>bufferSize + 2\<close>, the same step drops
  the oldest segment and unlinks its file; otherwise nothing is dropped or unlinked.
\<close>

theorem buffer_bound:
  fixes acts :: "action list" and r :: nat and segmentId chosen :: string and now :: int
  defines "newSegment \<equiv>
             \<lparr> seg_id = segmentId,
               seg_audioPath = path_join outputDir (segmentId @ ''.wav''),
               seg_duration = 60, seg_prompt = chosen, seg_generatedAt = now \<rparr>"
  defines "pushed \<equiv> musicSegments (deref (run acts initial) r) @ [newSegment]"
  defines "st' \<equiv> generateNextSegment r (Some (Generated segmentId chosen now)) (run acts initial)"
  shows "(\<forall>session \<in> set (heap (run acts initial)).
            - 2 \<le> bufferSize session
              \<longrightarrow> int (length (musicSegments session)) \<le> bufferSize session + 2)
       \<and> (r < length (heap (run acts initial))
            \<longrightarrow> (if int (length pushed) > bufferSize (deref (run acts initial) r) + 2
                 then musicSegments (deref st' r) = tl pushed
                      \<and> unlinked st' = unlinked (run acts initial) @ [seg_audioPath (hd pushed)]
                 else musicSegments (deref st' r) = pushed
                      \<and> unlinked st' = unlinked (run acts initial)))"
proof -
  let ?st = "run acts initial"
  have bound: "\<forall>session \<in> set (heap ?st).
            - 2 \<le> bufferSize session
              \<longrightarrow> int (length (musicSegments session)) \<le> bufferSize session + 2"
    using buffer_reachable[of acts] by (simp add: buffer_ok_def)
  have evict: "if int (length pushed) > bufferSize (deref ?st r) + 2
                 then musicSegments (deref st' r) = tl pushed
                      \<and> unlinked st' = unlinked ?st @ [seg_audioPath (hd pushed)]
                 else musicSegments (deref st' r) = pushed
                      \<and> unlinked st' = unlinked ?st"
    if ref: "r < length (heap ?st)"
  proof -
    note e = generateNextSegment_effect[OF ref, of segmentId chosen now, folded st'_def,
               folded newSegment_def, folded pushed_def]
    have "musicSegments (deref st' r)
            = (if int (length pushed) > bufferSize (deref ?st r) + 2 then tl pushed else pushed)"
      using ref by (simp add: deref_def e(4))
    with e(5) show ?thesis by simp
  qed
  from bound evict show ?thesis by blast
qed

theorem buffer_bound_witness:
  "length (heap demo_full) = 1
   \<and> bufferSize (deref demo_full 0) = 3
   \<and> length (musicSegments (deref demo_full 0)) = 5
   \<and> int (length (musicSegments (deref demo_full 0))) \<le> bufferSize (deref demo_full 0) + 2
   \<and> length (musicSegments
        (deref (generateNextSegment 0 (Some (Generated ''n3'' ''Ethereal pad sounds'' 5000))
                  demo_full) 0)) = 5
   \<and> unlinked (generateNextSegment 0 (Some (Generated ''n3'' ''Ethereal pad sounds'' 5000))
                  demo_full)
       = [''/tmp/generated_music/segment_.wav'']"
proof -
  have h: "heap demo_full = [deref demo_full 0]" by code_simp
  have b: "bufferSize (deref demo_full 0) = 3" by code_simp
  have l: "length (musicSegments (deref demo_full 0)) = 5" by code_simp
  have u: "unlinked demo_full = []" by code_simp
  have o: "seg_audioPath (hd (musicSegments (deref demo_full 0)))
             = ''/tmp/generated_music/segment_.wav''" by code_simp
  have ne: "musicSegments (deref demo_full 0) \<noteq> []" using l by auto
  note t = buffer_bound[of "[Create demo_options demo_track ''s1'' 0,
          Resume 0 (InitialReply (Some demo_env)),
          UpdatePosition ''s1'' 0 0,
          Resume 1 (NextReply (Some (Generated ''n1'' ''Ethereal pad sounds'' 3000))),
          UpdatePosition ''s1'' 1 0,
          Resume 1 (NextReply (Some (Generated ''n2'' ''Ethereal pad sounds'' 4000))),
          UpdatePosition ''s1'' 2 0]" 0 "''n3''" "''Ethereal pad sounds''" 5000,
          folded demo_full_def]
  from t have "int (length (musicSegments (deref demo_full 0))) \<le> bufferSize (deref demo_full 0) + 2"
    by (simp add: h b)
  moreover from t have
    "musicSegments (deref (generateNextSegment 0 (Some (Generated ''n3'' ''Ethereal pad sounds'' 5000))
                  demo_full) 0)
       = tl (musicSegments (deref demo_full 0) @
              [\<lparr> seg_id = ''n3'', seg_audioPath = path_join outputDir (''n3'' @ ''.wav''),
                 seg_duration = 60, seg_prompt = ''Ethereal pad sounds'', seg_generatedAt = 5000 \<rparr>])"
    "unlinked (generateNextSegment 0 (Some (Generated ''n3'' ''Ethereal pad sounds'' 5000)) demo_full)
       = unlinked demo_full @
           [seg_audioPath (hd (musicSegments (deref demo_full 0) @
              [\<lparr> seg_id = ''n3'', seg_audioPath = path_join outputDir (''n3'' @ ''.wav''),
                 seg_duration = 60, seg_prompt = ''Ethereal pad sounds'', seg_generatedAt = 5000 \<rparr>]))]"
    by (simp_all add: h b l)
  ultimately show ?thesis
    using ne by (simp add: h b l u o)
qed

text \<open>
  Claim C5 as stated fails for a session created with \<^verbatim>\<open>bufferSize\<close> \<open>-3\<close>, which
  creation accepts: with both background calls answered and nothing in flight its buffer
  is empty, and 0 is more than \<open>-3 + 2\<close>.
\<close>

theorem buffer_bound_counterexample:
  "opt_bufferSize minus_three_options = Some (- 3)
   \<and> map_of (sessions demo_minus_three) ''s3'' = Some 0
   \<and> isActive (deref demo_minus_three 0)
   \<and> inflight demo_minus_three = []
   \<and> bufferSize (deref demo_minus_three 0) = - 3
   \<and> musicSegments (deref demo_minus_three 0) = []
   \<and> \<not> int (length (musicSegments (deref demo_minus_three 0)))
          \<le> bufferSize (deref demo_minus_three 0) + 2"
  by code_simp

section \<open>The affirmation schedule\<close>

lemma plays_append: "events st' = events st @ es \<Longrightarrow> plays st' = plays st + length (filter is_play es)"
  by (simp add: plays_def)

lemma update_all_Nil: "update_all sessionId [] st = st"
  and update_all_Cons:
    "update_all sessionId ((position, random) # updates) st
       = update_all sessionId updates (step (UpdatePosition sessionId position random) st)"
  by (simp_all add: update_all_def run_def)

lemma update_step_affirmation:
  fixes position :: int and random :: real
  assumes reg: "map_of (sessions st) sessionId = Some r"
      and ref: "r < length (heap st)"
      and act: "isActive (deref st r)"
  defines "st' \<equiv> step (UpdatePosition sessionId position random) st"
  shows "updateSessionPosition sessionId position random st = Inr st'"
    and "sessions st' = sessions st"
    and "length (heap st') = length (heap st)"
    and "isActive (deref st' r)"
    and "affirmationInterval (deref st' r) = affirmationInterval (deref st r)"
    and "affirmations (deref st' r) = affirmations (deref st r)"
    and "fires (deref st r) position \<Longrightarrow>
           plays st' = plays st + 1 \<and> lastAffirmationTime (deref st' r) = position"
    and "\<not> fires (deref st r) position \<Longrightarrow>
           events st' = events st \<and> plays st' = plays st
           \<and> lastAffirmationTime (deref st' r) = lastAffirmationTime (deref st r)"
proof -
  from updateSessionPosition_succeeds[OF reg act] obtain st1 where
    upd: "updateSessionPosition sessionId position random st = Inr st1" by blast
  then have st': "st' = st1" by (simp add: st'_def)
  note e = updateSessionPosition_effect[OF upd reg ref, folded st']
  show "updateSessionPosition sessionId position random st = Inr st'" by (simp add: upd st')
  show "sessions st' = sessions st" by (rule e(1))
  show "length (heap st') = length (heap st)" by (rule e(3))
  show "isActive (deref st' r)" using act by (simp add: e(5))
  show "affirmationInterval (deref st' r) = affirmationInterval (deref st r)" by (simp add: e(5))
  show "affirmations (deref st' r) = affirmations (deref st r)" by (simp add: e(5))
  show "plays st' = plays st + 1 \<and> lastAffirmationTime (deref st' r) = position"
    if "fires (deref st r) position"
    using that plays_append[OF e(6)] by (simp add: e(5))
  show "events st' = events st \<and> plays st' = plays st
           \<and> lastAffirmationTime (deref st' r) = lastAffirmationTime (deref st r)"
    if "\<not> fires (deref st r) position"
    using that plays_append[OF e(6)] e(6) by (simp add: e(5))
qed

text \<open>
  Along any sequence of updates, each affirmation moves \<^verbatim>\<open>lastAffirmationTime\<close> forward
  by at least the interval, and \<^verbatim>\<open>lastAffirmationTime\<close> is the position of the last
  update that played one.
\<close>

lemma update_all_rate:
  fixes updates :: "(int \<times> real) list"
  assumes reg: "map_of (sessions st) sessionId = Some r"
      and ref: "r < length (heap st)"
      and act: "isActive (deref st r)"
  defines "st' \<equiv> update_all sessionId updates st"
  shows "plays st \<le> plays st'
       \<and> (int (plays st') - int (plays st)) * affirmationInterval (deref st r)
           \<le> lastAffirmationTime (deref st' r) - lastAffirmationTime (deref st r)
       \<and> (plays st' = plays st \<and> lastAffirmationTime (deref st' r) = lastAffirmationTime (deref st r)
           \<or> lastAffirmationTime (deref st' r) \<in> fst ` set updates)"
  unfolding st'_def using reg ref act
proof (induction updates arbitrary: st)
  case Nil
  then show ?case by (simp add: update_all_Nil)
next
  case (Cons u updates)
  obtain position random where u: "u = (position, random)" by (cases u)
  define st1 where "st1 = step (UpdatePosition sessionId position random) st"
  note s = update_step_affirmation[OF Cons.prems, of position random, folded st1_def]
  have reg1: "map_of (sessions st1) sessionId = Some r" using Cons.prems(1) by (simp only: s(2))
  have ref1: "r < length (heap st1)" using Cons.prems(2) by (simp only: s(3))
  define st2 where "st2 = update_all sessionId updates st1"
  note IH = Cons.IH[OF reg1 ref1 s(4), unfolded s(5), folded st2_def]
  have whole: "update_all sessionId (u # updates) st = st2"
    by (simp only: u update_all_Cons st2_def st1_def)
  let ?I = "affirmationInterval (deref st r)"
  from IH have a: "plays st1 \<le> plays st2"
    and b: "(int (plays st2) - int (plays st1)) * ?I
              \<le> lastAffirmationTime (deref st2 r) - lastAffirmationTime (deref st1 r)"
    and c: "plays st2 = plays st1 \<and> lastAffirmationTime (deref st2 r) = lastAffirmationTime (deref st1 r)
            \<or> lastAffirmationTime (deref st2 r) \<in> fst ` set updates"
    by blast+
  have "plays st \<le> plays st2
       \<and> (int (plays st2) - int (plays st)) * ?I
           \<le> lastAffirmationTime (deref st2 r) - lastAffirmationTime (deref st r)
       \<and> (plays st2 = plays st \<and> lastAffirmationTime (deref st2 r) = lastAffirmationTime (deref st r)
           \<or> lastAffirmationTime (deref st2 r) \<in> fst ` set (u # updates))"
  proof (cases "fires (deref st r) position")
    case True
    from s(7)[OF True] have p: "plays st1 = plays st + 1"
      and l: "lastAffirmationTime (deref st1 r) = position" by simp_all
    from True have gap: "?I \<le> position - lastAffirmationTime (deref st r)"
      by (simp add: fires_def)
    have "(int (plays st2) - int (plays st)) * ?I
            = (int (plays st2) - int (plays st1)) * ?I + ?I"
      by (simp add: p algebra_simps)
    with b gap l have "(int (plays st2) - int (plays st)) * ?I
            \<le> lastAffirmationTime (deref st2 r) - lastAffirmationTime (deref st r)"
      by linarith
    moreover from c l have "lastAffirmationTime (deref st2 r) \<in> fst ` set (u # updates)"
      by (auto simp: u)
    moreover from a p have "plays st \<le> plays st2" by simp
    ultimately show ?thesis by blast
  next
    case False
    from s(8)[OF False] have p: "plays st1 = plays st"
      and l: "lastAffirmationTime (deref st1 r) = lastAffirmationTime (deref st r)" by simp_all
    from a b c show ?thesis unfolding p l by auto
  qed
  then show ?case by (simp only: whole)
qed

lemma sorted_le_last:
  "sorted_wrt (<) xs \<Longrightarrow> (x::int) \<in> set xs \<Longrightarrow> x \<le> last xs"
proof (induction xs)
  case Nil
  then show ?case by simp
next
  case (Cons y ys)
  show ?case
  proof (cases "ys = []")
    case True
    with Cons.prems show ?thesis by simp
  next
    case False
    then have ly: "last ys \<in> set ys" by simp
    show ?thesis
    proof (cases "x = y")
      case True
      from Cons.prems(1) ly have "y < last ys" by simp
      with True False show ?thesis by simp
    next
      case neq: False
      with Cons.prems have "x \<in> set ys" "sorted_wrt (<) ys" by simp_all
      with Cons.IH False show ?thesis by simp
    qed
  qed
qed

lemma random_index_in_pool:
  assumes "0 \<le> random" "random < 1" "pool \<noteq> []"
  shows "pool ! nat \<lfloor>random * real (length pool)\<rfloor> \<in> set pool"
proof -
  have pos: "0 < real (length pool)" using assms(3) by simp
  have "random * real (length pool) < real (length pool)"
    using assms(2) pos by simp
  then have "\<lfloor>random * real (length pool)\<rfloor> < int (length pool)"
    by (simp add: floor_less_iff)
  moreover have "0 \<le> \<lfloor>random * real (length pool)\<rfloor>"
    using assms(1) by simp
  ultimately have "nat \<lfloor>random * real (length pool)\<rfloor> < length pool" by linarith
  then show ?thesis by (rule nth_mem)
qed

text \<open>
  Claim C6. In any state that a run of the service reaches, take a registered active
  session whose affirmation pool is not empty. A position update to \<open>position\<close> emits
  exactly one notification, a \<^verbatim>\<open>playAffirmation\<close> carrying the pool entry at the
  drawn index, and sets \<^verbatim>\<open>lastAffirmationTime\<close> to \<open>position\<close> when
  \<open>position - lastAffirmationTime \<ge> affirmationInterval\<close>; otherwise it emits nothing and
  leaves \<^verbatim>\<open>lastAffirmationTime\<close> as it was. With a draw in \<open>[0, 1)\<close> the entry is one of
  the pool. In the scenario with interval 30 and \<^verbatim>\<open>lastAffirmationTime\<close> 0, the
  notifications played after the updates to 29, 30, 59 and 60 number 0, 1, 1 and 2. Along
  any strictly increasing sequence of positions, the number of affirmations played times
  the interval is at most the distance from the initial \<^verbatim>\<open>lastAffirmationTime\<close> to the
  last position (or 0).
\<close>

theorem affirmation_schedule:
  fixes position :: int and random :: real and updates :: "(int \<times> real) list"
  assumes reg: "map_of (sessions (run acts initial)) sessionId = Some r"
      and act: "isActive (deref (run acts initial) r)"
      and pool: "affirmations (deref (run acts initial) r) \<noteq> []"
  defines "session \<equiv> deref (run acts initial) r"
  shows "(\<exists>st'. updateSessionPosition sessionId position random (run acts initial) = Inr st'
            \<and> (if position - lastAffirmationTime session \<ge> affirmationInterval session
                then events st' = events (run acts initial) @
                       [PlayAffirmation sessionId
                          (affirmations session
                             ! nat \<lfloor>random * real (length (affirmations session))\<rfloor>)]
                     \<and> lastAffirmationTime (deref st' r) = position
                else events st' = events (run acts initial)
                     \<and> lastAffirmationTime (deref st' r) = lastAffirmationTime session))
       \<and> (0 \<le> random \<and> random < 1
            \<longrightarrow> affirmations session ! nat \<lfloor>random * real (length (affirmations session))\<rfloor>
                  \<in> set (affirmations session))
       \<and> (affirmationInterval (deref demo_pool 0) = 30
            \<and> lastAffirmationTime (deref demo_pool 0) = 0
            \<and> plays demo_pool = 0
            \<and> plays (update_all ''s1'' [(29, 0)] demo_pool) = 0
            \<and> plays (update_all ''s1'' [(29, 0), (30, 0)] demo_pool) = 1
            \<and> plays (update_all ''s1'' [(29, 0), (30, 0), (59, 0)] demo_pool) = 1
            \<and> plays (update_all ''s1'' [(29, 0), (30, 0), (59, 0), (60, 0)] demo_pool) = 2)
       \<and> (sorted_wrt (<) (map fst updates) \<and> updates \<noteq> []
            \<longrightarrow> (int (plays (update_all sessionId updates (run acts initial)))
                     - int (plays (run acts initial))) * affirmationInterval session
                  \<le> max 0 (fst (last updates) - lastAffirmationTime session))"
proof -
  let ?st = "run acts initial"
  from registry_lookup[OF invariant_reachable(1) reg]
  have ref: "r < length (heap ?st)" and sid: "session_id (deref ?st r) = sessionId" by simp_all
  have one: "\<exists>st'. updateSessionPosition sessionId position random ?st = Inr st'
            \<and> (if position - lastAffirmationTime session \<ge> affirmationInterval session
                then events st' = events ?st @
                       [PlayAffirmation sessionId
                          (affirmations session
                             ! nat \<lfloor>random * real (length (affirmations session))\<rfloor>)]
                     \<and> lastAffirmationTime (deref st' r) = position
                else events st' = events ?st
                     \<and> lastAffirmationTime (deref st' r) = lastAffirmationTime session)"
  proof -
    from updateSessionPosition_succeeds[OF reg act] obtain st' where
      upd: "updateSessionPosition sessionId position random ?st = Inr st'" by blast
    note e = updateSessionPosition_effect[OF upd reg ref]
    have f: "fires (deref ?st r) position
               \<longleftrightarrow> position - lastAffirmationTime session \<ge> affirmationInterval session"
      using pool by (simp add: fires_def session_def)
    have sid': "session_id session = sessionId" by (simp add: session_def sid)
    show ?thesis
    proof (cases "position - lastAffirmationTime session \<ge> affirmationInterval session")
      case True
      with f have "fires (deref ?st r) position" by simp
      with e(5,6) True upd show ?thesis by (simp add: sid' session_def[symmetric])
    next
      case False
      with f have "\<not> fires (deref ?st r) position" by simp
      with e(5,6) False upd show ?thesis by (simp add: session_def[symmetric])
    qed
  qed
  have draw: "affirmations session ! nat \<lfloor>random * real (length (affirmations session))\<rfloor>
                  \<in> set (affirmations session)" if "0 \<le> random \<and> random < 1"
    using that pool by (intro random_index_in_pool) (simp_all add: session_def)
  have scenario: "affirmationInterval (deref demo_pool 0) = 30
            \<and> lastAffirmationTime (deref demo_pool 0) = 0
            \<and> plays demo_pool = 0
            \<and> plays (update_all ''s1'' [(29, 0)] demo_pool) = 0
            \<and> plays (update_all ''s1'' [(29, 0), (30, 0)] demo_pool) = 1
            \<and> plays (update_all ''s1'' [(29, 0), (30, 0), (59, 0)] demo_pool) = 1
            \<and> plays (update_all ''s1'' [(29, 0), (30, 0), (59, 0), (60, 0)] demo_pool) = 2"
    by code_simp
  have rate: "(int (plays (update_all sessionId updates ?st)) - int (plays ?st))
                 * affirmationInterval session
              \<le> max 0 (fst (last updates) - lastAffirmationTime session)"
    if inc: "sorted_wrt (<) (map fst updates) \<and> updates \<noteq> []"
  proof -
    let ?st2 = "update_all sessionId updates ?st"
    from update_all_rate[OF reg ref act, of updates, folded session_def]
    have b: "(int (plays ?st2) - int (plays ?st)) * affirmationInterval session
               \<le> lastAffirmationTime (deref ?st2 r) - lastAffirmationTime session"
     and c: "plays ?st2 = plays ?st \<or> lastAffirmationTime (deref ?st2 r) \<in> fst ` set updates"
      by blast+
    from c show ?thesis
    proof
      assume "plays ?st2 = plays ?st"
      then show ?thesis by simp
    next
      assume "lastAffirmationTime (deref ?st2 r) \<in> fst ` set updates"
      then have "lastAffirmationTime (deref ?st2 r) \<in> set (map fst updates)" by simp
      from sorted_le_last[OF _ this] inc
      have "lastAffirmationTime (deref ?st2 r) \<le> fst (last updates)"
        by (simp add: last_map)
      with b show ?thesis by linarith
    qed
  qed
  from one draw scenario rate show ?thesis by blast
qed

theorem affirmation_schedule_witness:
  "map_of (sessions demo_pool) ''s1'' = Some 0
   \<and> isActive (deref demo_pool 0)
   \<and> affirmations (deref demo_pool 0) = [demo_affirmation]
   \<and> events (step (UpdatePosition ''s1'' 30 0) demo_pool)
       = events demo_pool @ [PlayAffirmation ''s1'' demo_affirmation]
   \<and> lastAffirmationTime (deref (step (UpdatePosition ''s1'' 30 0) demo_pool) 0) = 30
   \<and> demo_affirmation \<in> set (affirmations (deref demo_pool 0))
   \<and> (int (plays (update_all ''s1'' [(29, 0), (30, 0), (59, 0), (60, 0)] demo_pool))
         - int (plays demo_pool)) * 30 \<le> 60"
proof -
  have reg: "map_of (sessions (run [Create demo_options demo_track ''s1'' 0,
          Resume 1 (AffirmationsReply (Some [demo_affirmation]))] initial)) ''s1'' = Some 0"
    unfolding demo_pool_def[symmetric] by code_simp
  have act: "isActive (deref (run [Create demo_options demo_track ''s1'' 0,
          Resume 1 (AffirmationsReply (Some [demo_affirmation]))] initial) 0)"
    unfolding demo_pool_def[symmetric] by code_simp
  have p: "affirmations (deref demo_pool 0) = [demo_affirmation]" by code_simp
  have pool: "affirmations (deref (run [Create demo_options demo_track ''s1'' 0,
          Resume 1 (AffirmationsReply (Some [demo_affirmation]))] initial) 0) \<noteq> []"
    unfolding demo_pool_def[symmetric] by (simp add: p)
  have i: "affirmationInterval (deref demo_pool 0) = 30"
    and l: "lastAffirmationTime (deref demo_pool 0) = 0" by code_simp+
  have inc: "sorted_wrt (<) (map fst [(29::int, 0::real), (30, 0), (59, 0), (60, 0)])
             \<and> [(29::int, 0::real), (30, 0), (59, 0), (60, 0)] \<noteq> []" by simp
  note t = affirmation_schedule[OF reg act pool, of 30 0 "[(29, 0), (30, 0), (59, 0), (60, 0)]",
             folded demo_pool_def]
  from t obtain st' where
    "updateSessionPosition ''s1'' 30 0 demo_pool = Inr st'"
    "events st' = events demo_pool @ [PlayAffirmation ''s1'' demo_affirmation]"
    "lastAffirmationTime (deref st' 0) = 30"
    by (auto simp: i l p)
  moreover from t have "demo_affirmation \<in> set (affirmations (deref demo_pool 0))"
    by (simp add: p)
  moreover from t inc
  have "(int (plays (update_all ''s1'' [(29, 0), (30, 0), (59, 0), (60, 0)] demo_pool))
         - int (plays demo_pool)) * 30 \<le> 60"
    by (simp add: i l)
  ultimately show ?thesis
    using reg[folded demo_pool_def] act[folded demo_pool_def] p by simp
qed

section \<open>Stopping twice\<close>



section \<open>The retention sweep\<close>

lemma sessionsToCleanup_registered:
  assumes "k \<in> set (sessionsToCleanup now st)"
  shows "map_of (sessions st) k \<noteq> None"
proof -
  from assms obtain r where "(k, r) \<in> set (sessions st)"
    unfolding sessionsToCleanup_def by force
  then have "k \<in> fst ` set (sessions st)" by force
  then show ?thesis by (simp add: map_of_eq_None_iff)
qed

lemma sessionsToCleanup_distinct:
  "registry_ok st \<Longrightarrow> distinct (sessionsToCleanup now st)"
  by (simp add: registry_ok_def sessionsToCleanup_def distinct_map_filter)

lemma sessionsToCleanup_iff:
  assumes ok: "registry_ok st" and reg: "map_of (sessions st) sessionId = Some r"
  shows "sessionId \<in> set (sessionsToCleanup now st)
           \<longleftrightarrow> \<not> isActive (deref st r) \<or> now - startTime (deref st r) > 30 * 60 * 1000"
proof -
  have unique: "r' = r" if "(sessionId, r') \<in> set (sessions st)" for r'
    using ok that reg by (simp add: registry_ok_def)
  have entry: "(sessionId, r) \<in> set (sessions st)"
    using reg by (rule map_of_SomeD)
  have "sessionId \<in> set (sessionsToCleanup now st)
          \<longleftrightarrow> (\<exists>r'. (sessionId, r') \<in> set (sessions st)
                    \<and> (\<not> isActive (deref st r') \<or> now - startTime (deref st r') > maxInactiveTime))"
    unfolding sessionsToCleanup_def by force
  also have "\<dots> \<longleftrightarrow> \<not> isActive (deref st r) \<or> now - startTime (deref st r) > maxInactiveTime"
    using entry unique by blast
  finally show ?thesis by (simp add: maxInactiveTime_def)
qed

subsection \<open>A stop that runs on undisturbed\<close>

lemma drain_Suc: "drain (Suc n) st = drain n (resume_last st)"
  by (simp add: drain_def funpow_swap1)

lemma drain_0: "drain 0 st = st"
  by (simp add: drain_def)

lemma resume_last_cleanup:
  "resume_last (s\<lparr> inflight := ts @ [Cleanup r sessionId stage] \<rparr>)
     = stopSession_resume r sessionId stage (s\<lparr> inflight := ts \<rparr>)"
  by (simp add: resume_last_def resume_def matches_def settle_def)

lemma drain_affirmations:
  "j \<le> length affs \<Longrightarrow> n = length affs - j \<Longrightarrow>
   drain (Suc n) (s\<lparr> inflight := ts @ [Cleanup r sessionId (Affirmations affs j)] \<rparr>)
     = s\<lparr> inflight := ts,
          unlinked := unlinked s @ map aff_audioPath (drop j affs),
          sessions := AList.delete sessionId (sessions s) \<rparr>"
proof (induction n arbitrary: j s)
  case 0
  then have "j = length affs" by simp
  then show ?case
    by (simp add: drain_Suc drain_0 resume_last_cleanup stopSession_resume_def
          cleanupSession_affirmations_def cleanupSession_end_def)
next
  case (Suc n)
  then have j: "j < length affs" and n: "n = length affs - Suc j" by simp_all
  let ?s' = "s\<lparr> unlinked := unlinked s @ [aff_audioPath (affs ! j)] \<rparr>"
  have "resume_last (s\<lparr> inflight := ts @ [Cleanup r sessionId (Affirmations affs j)] \<rparr>)
          = ?s'\<lparr> inflight := ts @ [Cleanup r sessionId (Affirmations affs (Suc j))] \<rparr>"
    using j by (simp add: resume_last_cleanup stopSession_resume_def
                  cleanupSession_affirmations_def unlink_def suspend_def)
  moreover from j have "Suc j \<le> length affs" by simp
  note Suc.IH[OF this n, of ?s']
  moreover have "drop j affs = affs ! j # drop (Suc j) affs"
    using j by (simp add: Cons_nth_drop_Suc)
  ultimately show ?case
    by (simp add: drain_Suc[of "Suc n"])
qed

lemma drain_segments:
  "i \<le> length (musicSegments (deref s r)) \<Longrightarrow> n = length (musicSegments (deref s r)) - i \<Longrightarrow>
   drain (Suc (n + length (affirmations (deref s r))))
         (s\<lparr> inflight := ts @ [Cleanup r sessionId (Segments Current i)] \<rparr>)
     = s\<lparr> inflight := ts,
          unlinked := unlinked s @ map seg_audioPath (drop i (musicSegments (deref s r)))
                                 @ map aff_audioPath (affirmations (deref s r)),
          sessions := AList.delete sessionId (sessions s) \<rparr>"
proof (induction n arbitrary: i s)
  case 0
  let ?segs = "musicSegments (deref s r)" and ?affs = "affirmations (deref s r)"
  from 0 have i: "i = length ?segs" by simp
  have d: "deref (s\<lparr> inflight := ts \<rparr>) r = deref s r" by (simp add: deref_def)
  show ?case
  proof (cases ?affs)
    case Nil
    then show ?thesis
      using i by (simp add: drain_Suc drain_0 resume_last_cleanup stopSession_resume_def
                    cleanupSession_segments_def cleanupSession_affirmations_def
                    cleanupSession_end_def d)
  next
    case (Cons aff affs)
    let ?s' = "s\<lparr> unlinked := unlinked s @ [aff_audioPath aff] \<rparr>"
    have "resume_last (s\<lparr> inflight := ts @ [Cleanup r sessionId (Segments Current i)] \<rparr>)
            = ?s'\<lparr> inflight := ts @ [Cleanup r sessionId (Affirmations ?affs 1)] \<rparr>"
      using i Cons by (simp add: resume_last_cleanup stopSession_resume_def
                         cleanupSession_segments_def cleanupSession_affirmations_def
                         unlink_def suspend_def d)
    moreover have "drain (Suc (length ?affs - 1))
                     (?s'\<lparr> inflight := ts @ [Cleanup r sessionId (Affirmations ?affs 1)] \<rparr>)
            = ?s'\<lparr> inflight := ts,
                    unlinked := unlinked ?s' @ map aff_audioPath (drop 1 ?affs),
                    sessions := AList.delete sessionId (sessions ?s') \<rparr>"
      by (rule drain_affirmations) (simp_all add: Cons)
    ultimately show ?thesis
      using i Cons by (simp add: drain_Suc[of "Suc (length affs)"])
  qed
next
  case (Suc n)
  let ?segs = "musicSegments (deref s r)"
  from Suc.prems have i: "i < length ?segs" and n: "n = length ?segs - Suc i" by simp_all
  let ?s' = "s\<lparr> unlinked := unlinked s @ [seg_audioPath (?segs ! i)] \<rparr>"
  have d: "deref (s\<lparr> inflight := ts \<rparr>) r = deref s r" "deref ?s' r = deref s r"
    by (simp_all add: deref_def)
  have "resume_last (s\<lparr> inflight := ts @ [Cleanup r sessionId (Segments Current i)] \<rparr>)
          = ?s'\<lparr> inflight := ts @ [Cleanup r sessionId (Segments Current (Suc i))] \<rparr>"
    using i by (simp add: resume_last_cleanup stopSession_resume_def
                  cleanupSession_segments_def unlink_def suspend_def d)
  moreover have "Suc i \<le> length (musicSegments (deref ?s' r))"
    and "n = length (musicSegments (deref ?s' r)) - Suc i"
    using i n by (simp_all add: d)
  note Suc.IH[OF this, unfolded d]
  moreover have "drop i ?segs = ?segs ! i # drop (Suc i) ?segs"
    using i by (simp add: Cons_nth_drop_Suc)
  ultimately show ?case
    by (simp add: drain_Suc[of "Suc (n + length (affirmations (deref s r)))"])
qed

text \<open>
  A suspended stop that has just begun and is resumed with nothing else in between, as
  many times as the session owns files (once when it owns none), unlinks the remaining
  files in order and deletes the record.
\<close>

lemma drain_first_stage:
  "drain (max 1 (length (owned_paths (deref s r))))
         (s\<lparr> inflight := ts @ [Cleanup r sessionId (first_stage (deref s r))] \<rparr>)
     = s\<lparr> inflight := ts,
          unlinked := unlinked s @ drop 1 (owned_paths (deref s r)),
          sessions := AList.delete sessionId (sessions s) \<rparr>"
proof (cases "musicSegments (deref s r)")
  case (Cons seg segs)
  have "drain (Suc (length (musicSegments (deref s r)) - 1 + length (affirmations (deref s r))))
         (s\<lparr> inflight := ts @ [Cleanup r sessionId (Segments Current 1)] \<rparr>)
     = s\<lparr> inflight := ts,
          unlinked := unlinked s @ map seg_audioPath (drop 1 (musicSegments (deref s r)))
                                 @ map aff_audioPath (affirmations (deref s r)),
          sessions := AList.delete sessionId (sessions s) \<rparr>"
    by (rule drain_segments) (simp_all add: Cons)
  then show ?thesis
    by (simp add: Cons first_stage_def owned_paths_def)
next
  case Nil
  show ?thesis
  proof (cases "affirmations (deref s r)")
    case (Cons aff affs)
    have "drain (Suc (length (affirmations (deref s r)) - 1))
           (s\<lparr> inflight := ts @ [Cleanup r sessionId (Affirmations (affirmations (deref s r)) 1)] \<rparr>)
       = s\<lparr> inflight := ts,
            unlinked := unlinked s @ map aff_audioPath (drop 1 (affirmations (deref s r))),
            sessions := AList.delete sessionId (sessions s) \<rparr>"
      by (rule drain_affirmations) (simp_all add: Cons)
    then show ?thesis
      by (simp add: Nil Cons first_stage_def owned_paths_def)
  next
    case empty: Nil
    have "drain (Suc 0) (s\<lparr> inflight := ts @ [Cleanup r sessionId Finishing] \<rparr>)
            = s\<lparr> inflight := ts, sessions := AList.delete sessionId (sessions s) \<rparr>"
      by (simp add: drain_Suc drain_0 resume_last_cleanup stopSession_resume_def
            cleanupSession_end_def)
    then show ?thesis
      by (simp add: Nil empty first_stage_def owned_paths_def)
  qed
qed

text \<open>
  A stop with nothing in between is its first turn followed by its resumptions until it
  ends.
\<close>

lemma cleanupSession_owned:
  "cleanupSession session st = st\<lparr> unlinked := unlinked st @ owned_paths session \<rparr>"
  by (simp add: cleanupSession_effect owned_paths_def)

lemma stopSession_split:
  assumes reg: "map_of (sessions st) sessionId = Some r"
      and started: "stopSession_begin sessionId st = Inr st'"
  shows "stopSession sessionId st
           = Inr (drain (max 1 (length (owned_paths (deref st r)))) st')"
proof -
  define st2 where
    "st2 = emit (SessionStopped sessionId) (modify r (\<lambda>s. s\<lparr> isActive := False \<rparr>) st)"
  define s where "s = st2\<lparr> unlinked := unlinked st2 @ take 1 (owned_paths (deref st2 r)) \<rparr>"
  have own: "owned_paths (deref st2 r) = owned_paths (deref st r)"
    unfolding st2_def by simp
  have d: "deref s r = deref st2 r" by (simp add: s_def deref_def)
  from started reg have "st' = cleanupSession_segments False r sessionId Current 0 st2"
    by (simp add: stopSession_begin_def Let_def st2_def)
  then have st': "st' = s\<lparr> inflight := inflight st2 @ [Cleanup r sessionId (first_stage (deref s r))] \<rparr>"
    unfolding cleanupSession_segments_begin suspend_def d by (simp add: s_def)
  have "drain (max 1 (length (owned_paths (deref s r)))) st'
          = s\<lparr> inflight := inflight st2,
                unlinked := unlinked s @ drop 1 (owned_paths (deref s r)),
                sessions := AList.delete sessionId (sessions s) \<rparr>"
    unfolding st' by (rule drain_first_stage)
  also have "\<dots> = (cleanupSession (deref st2 r) st2)
                     \<lparr> sessions := AList.delete sessionId (sessions st2) \<rparr>"
    unfolding d cleanupSession_owned by (simp add: s_def)
  finally have "drain (max 1 (length (owned_paths (deref st r)))) st'
                  = (cleanupSession (deref st2 r) st2)
                      \<lparr> sessions := AList.delete sessionId (sessions st2) \<rparr>"
    by (simp only: d own)
  moreover have "stopSession sessionId st
                  = Inr ((cleanupSession (deref st2 r) st2)
                           \<lparr> sessions := AList.delete sessionId (sessions st2) \<rparr>)"
    using reg by (simp add: stopSession_def Let_def st2_def cleanupSession_owned)
  ultimately show ?thesis by simp
qed

subsection \<open>The pass\<close>

text \<open>
  What a row of unawaited stops leaves behind: every session of the row is inactive, a
  \<^verbatim>\<open>sessionStopped\<close> has been emitted, the first file has been passed to
  \<^verbatim>\<open>fs.unlink\<close> and a cleanup is suspended for each in turn, and the table is as
  before.
\<close>

lemma begin_all_effect:
  assumes "registry_ok st" "tasks_ok st" "\<forall>k \<in> set ids. map_of (sessions st) k \<noteq> None"
  shows "sessions (begin_all ids st) = sessions st
       \<and> unlinked (begin_all ids st)
           = unlinked st @ concat (map (\<lambda>k. take 1 (owned_paths
                                       (deref st (the (map_of (sessions st) k))))) ids)
       \<and> events (begin_all ids st) = events st @ map SessionStopped ids
       \<and> inflight (begin_all ids st)
           = inflight st @ map (\<lambda>k. Cleanup (the (map_of (sessions st) k)) k
                                     (first_stage (deref st (the (map_of (sessions st) k))))) ids
       \<and> length (heap (begin_all ids st)) = length (heap st)
       \<and> (\<forall>x. deref (begin_all ids st) x
               = (if x \<in> (\<lambda>k. the (map_of (sessions st) k)) ` set ids
                  then (deref st x)\<lparr> isActive := False \<rparr> else deref st x))"
  using assms
proof (induction ids arbitrary: st)
  case Nil
  then show ?case by (simp add: begin_all_def)
next
  case (Cons k ids)
  from Cons.prems(3) obtain r where reg: "map_of (sessions st) k = Some r" by auto
  from stopSession_begin_succeeds[OF reg] obtain s1 where
    started: "stopSession_begin k st = Inr s1" by blast
  from started obtain r' where
        r': "map_of (sessions st) k = Some r'"
    and h: "heap s1 = (heap st)[r' := (heap st ! r')\<lparr> isActive := False \<rparr>]"
    and s: "sessions s1 = sessions st"
    and i: "inflight s1 = inflight st @ [Cleanup r' k (first_stage (deref st r'))]"
    and e: "events s1 = events st @ [SessionStopped k]"
    and u: "unlinked s1 = unlinked st @ take 1 (owned_paths (deref st r'))"
    by (rule stopSession_begin_effect)
  from r' reg have [simp]: "r' = r" by simp
  from registry_lookup[OF Cons.prems(1) reg] have ref: "r < length (heap st)" by simp
  have ok1: "registry_ok s1" "tasks_ok s1"
    using invariant_begin[OF Cons.prems(1,2) started] by simp_all
  have regd1: "\<forall>k' \<in> set ids. map_of (sessions s1) k' \<noteq> None"
    using Cons.prems(3) by (simp add: s)
  have d1: "deref s1 x = (if x = r then (deref st x)\<lparr> isActive := False \<rparr> else deref st x)" for x
    using ref by (simp add: deref_def h)
  have own1: "owned_paths (deref s1 x) = owned_paths (deref st x)"
             "first_stage (deref s1 x) = first_stage (deref st x)" for x
    by (simp_all add: d1)
  note IH = Cons.IH[OF ok1 regd1, unfolded s own1]
  have whole: "begin_all (k # ids) st = begin_all ids s1"
    by (simp add: begin_all_def started)
  have "\<forall>x. deref (begin_all ids s1) x
               = (if x \<in> (\<lambda>k. the (map_of (sessions st) k)) ` set (k # ids)
                  then (deref st x)\<lparr> isActive := False \<rparr> else deref st x)"
  proof
    fix x
    from IH have "deref (begin_all ids s1) x
               = (if x \<in> (\<lambda>k. the (map_of (sessions st) k)) ` set ids
                  then (deref s1 x)\<lparr> isActive := False \<rparr> else deref s1 x)"
      by blast
    then show "deref (begin_all ids s1) x
               = (if x \<in> (\<lambda>k. the (map_of (sessions st) k)) ` set (k # ids)
                  then (deref st x)\<lparr> isActive := False \<rparr> else deref st x)"
      by (cases "x = r") (simp_all add: d1 reg)
  qed
  moreover from IH have "sessions (begin_all ids s1) = sessions st"
    and "unlinked (begin_all ids s1)
           = unlinked st @ concat (map (\<lambda>k. take 1 (owned_paths
                                       (deref st (the (map_of (sessions st) k))))) (k # ids))"
    and "events (begin_all ids s1) = events st @ map SessionStopped (k # ids)"
    and "inflight (begin_all ids s1)
           = inflight st @ map (\<lambda>k. Cleanup (the (map_of (sessions st) k)) k
                                     (first_stage (deref st (the (map_of (sessions st) k)))))
                               (k # ids)"
    and "length (heap (begin_all ids s1)) = length (heap st)"
    by (simp_all add: u e i h reg)
  ultimately show ?case
    unfolding whole by blast
qed

text \<open>
  Claim C8. In any state that a run of the service reaches, the sweep at time \<open>now\<close>
  selects a registered session exactly when the session is not active or \<open>now\<close> is more
  than 30 minutes (in milliseconds) after its \<^verbatim>\<open>startTime\<close>, and it selects no session
  twice. It calls \<^verbatim>\<open>stopSession\<close> on the selected sessions in turn and awaits none of
  the calls: when the pass returns, each selected session is inactive, a
  \<^verbatim>\<open>sessionStopped\<close> has been emitted for it, its first file has been passed to
  \<^verbatim>\<open>fs.unlink\<close> and its stop is suspended, while the table is untouched; a session
  that is not selected is left as it was. When the file system answers the suspended stop
  of a selected session as many times as the session owns files (once when it owns none),
  with nothing else in between, the remaining files of the session have been unlinked in
  order, its record has been deleted, and no other record has. A position update never
  writes \<^verbatim>\<open>startTime\<close> or \<^verbatim>\<open>isActive\<close>, so it leaves the decision of the sweep as it
  was.
\<close>

theorem sweep_by_age:
  fixes acts :: "action list" and sessionId :: string and r :: nat and now position :: int
    and random :: real
  defines "st \<equiv> run acts initial"
  defines "swept \<equiv> cleanupInactiveSessions now st"
  assumes reg: "map_of (sessions st) sessionId = Some r"
  shows "(sessionId \<in> set (sessionsToCleanup now st)
            \<longleftrightarrow> \<not> isActive (deref st r) \<or> now - startTime (deref st r) > 30 * 60 * 1000)
       \<and> distinct (sessionsToCleanup now st)
       \<and> sessions swept = sessions st
       \<and> events swept = events st @ map SessionStopped (sessionsToCleanup now st)
       \<and> unlinked swept
           = unlinked st @ concat (map (\<lambda>k. take 1 (owned_paths
                                       (deref st (the (map_of (sessions st) k)))))
                                      (sessionsToCleanup now st))
       \<and> inflight swept
           = inflight st @ map (\<lambda>k. Cleanup (the (map_of (sessions st) k)) k
                                     (first_stage (deref st (the (map_of (sessions st) k)))))
                               (sessionsToCleanup now st)
       \<and> deref swept r
           = (if sessionId \<in> set (sessionsToCleanup now st)
              then (deref st r)\<lparr> isActive := False \<rparr> else deref st r)
       \<and> (sessionId \<in> set (sessionsToCleanup now st)
            \<longrightarrow> (\<exists>k < length (inflight swept).
                    inflight swept ! k = Cleanup r sessionId (first_stage (deref st r))
                    \<and> unlinked (drain (max 1 (length (owned_paths (deref st r))) - 1)
                                  (resume k CleanupReply swept))
                        = unlinked swept @ drop 1 (owned_paths (deref st r))
                    \<and> map_of (sessions (drain (max 1 (length (owned_paths (deref st r))) - 1)
                                           (resume k CleanupReply swept))) sessionId = None
                    \<and> (\<forall>other. other \<noteq> sessionId
                          \<longrightarrow> map_of (sessions (drain (max 1 (length (owned_paths (deref st r))) - 1)
                                                    (resume k CleanupReply swept))) other
                                = map_of (sessions st) other)))
       \<and> startTime (deref (step (UpdatePosition sessionId position random) st) r)
           = startTime (deref st r)
       \<and> isActive (deref (step (UpdatePosition sessionId position random) st) r)
           = isActive (deref st r)
       \<and> sessionsToCleanup now (step (UpdatePosition sessionId position random) st)
           = sessionsToCleanup now st"
proof -
  let ?ids = "sessionsToCleanup now st"
  let ?ref = "\<lambda>k. the (map_of (sessions st) k)"
  have ok: "registry_ok st" "tasks_ok st"
    unfolding st_def by (rule invariant_reachable)+
  from registry_lookup[OF ok(1) reg]
  have ref: "r < length (heap st)" and sid: "session_id (deref st r) = sessionId" by simp_all
  have sel: "sessionId \<in> set ?ids
               \<longleftrightarrow> \<not> isActive (deref st r) \<or> now - startTime (deref st r) > 30 * 60 * 1000"
    by (rule sessionsToCleanup_iff[OF ok(1) reg])
  have once: "distinct ?ids"
    by (rule sessionsToCleanup_distinct[OF ok(1)])
  have regd: "\<forall>k \<in> set ?ids. map_of (sessions st) k \<noteq> None"
    using sessionsToCleanup_registered by blast
  have swept: "swept = begin_all ?ids st"
    by (simp add: swept_def cleanupInactiveSessions_def begin_all_def)
  note e = begin_all_effect[OF ok regd, folded swept]
  from e have s: "sessions swept = sessions st"
    and u: "unlinked swept
              = unlinked st @ concat (map (\<lambda>k. take 1 (owned_paths (deref st (?ref k)))) ?ids)"
    and ev: "events swept = events st @ map SessionStopped ?ids"
    and i: "inflight swept
              = inflight st @ map (\<lambda>k. Cleanup (?ref k) k (first_stage (deref st (?ref k)))) ?ids"
    and d: "deref swept r = (if r \<in> ?ref ` set ?ids
                             then (deref st r)\<lparr> isActive := False \<rparr> else deref st r)"
    by blast+
  have mine: "r \<in> ?ref ` set ?ids \<longleftrightarrow> sessionId \<in> set ?ids"
  proof
    assume "r \<in> ?ref ` set ?ids"
    then obtain k where k: "k \<in> set ?ids" and rk: "r = ?ref k" by blast
    from regd k obtain r' where "map_of (sessions st) k = Some r'" by auto
    with rk registry_lookup[OF ok(1) this] sid have "k = sessionId" by simp
    with k show "sessionId \<in> set ?ids" by simp
  next
    assume "sessionId \<in> set ?ids"
    moreover have "?ref sessionId = r" by (simp add: reg)
    ultimately show "r \<in> ?ref ` set ?ids" by force
  qed
  have d': "deref swept r = (if sessionId \<in> set ?ids
                             then (deref st r)\<lparr> isActive := False \<rparr> else deref st r)"
    using d by (simp only: mine)
  let ?n = "max 1 (length (owned_paths (deref st r)))"
  have fin: "\<exists>k < length (inflight swept).
                    inflight swept ! k = Cleanup r sessionId (first_stage (deref st r))
                    \<and> unlinked (drain (?n - 1) (resume k CleanupReply swept))
                        = unlinked swept @ drop 1 (owned_paths (deref st r))
                    \<and> map_of (sessions (drain (?n - 1) (resume k CleanupReply swept))) sessionId
                        = None
                    \<and> (\<forall>other. other \<noteq> sessionId
                          \<longrightarrow> map_of (sessions (drain (?n - 1) (resume k CleanupReply swept))) other
                                = map_of (sessions st) other)"
    if chosen: "sessionId \<in> set ?ids"
  proof -
    from chosen obtain j where j: "j < length ?ids" "?ids ! j = sessionId"
      by (auto simp: in_set_conv_nth)
    define k where "k = length (inflight st) + j"
    have len: "k < length (inflight swept)" using j(1) by (simp add: k_def i)
    have task: "inflight swept ! k = Cleanup r sessionId (first_stage (deref st r))"
      using j by (simp add: k_def i nth_append reg)
    define ts where "ts = take k (inflight swept) @ drop (Suc k) (inflight swept)"
    have own: "owned_paths (deref swept r) = owned_paths (deref st r)"
              "first_stage (deref swept r) = first_stage (deref st r)"
      using d' chosen by simp_all
    have "resume k CleanupReply swept
            = stopSession_resume r sessionId (first_stage (deref st r)) (swept\<lparr> inflight := ts \<rparr>)"
      using len task by (simp add: resume_def matches_def settle_def ts_def)
    also have "\<dots> = resume_last
                      (swept\<lparr> inflight := ts @ [Cleanup r sessionId (first_stage (deref swept r))] \<rparr>)"
      by (simp add: resume_last_cleanup own)
    finally have "drain (?n - 1) (resume k CleanupReply swept)
            = drain (Suc (?n - 1))
                (swept\<lparr> inflight := ts @ [Cleanup r sessionId (first_stage (deref swept r))] \<rparr>)"
      by (simp only: drain_Suc)
    also have "Suc (?n - 1) = max 1 (length (owned_paths (deref swept r)))"
      by (simp add: own)
    finally have "drain (?n - 1) (resume k CleanupReply swept)
            = swept\<lparr> inflight := ts,
                     unlinked := unlinked swept @ drop 1 (owned_paths (deref swept r)),
                     sessions := AList.delete sessionId (sessions swept) \<rparr>"
      by (simp only: drain_first_stage)
    then have "unlinked (drain (?n - 1) (resume k CleanupReply swept))
                 = unlinked swept @ drop 1 (owned_paths (deref st r))"
      and "sessions (drain (?n - 1) (resume k CleanupReply swept))
                 = AList.delete sessionId (sessions st)"
      by (simp_all add: own s)
    then show ?thesis
      using len task by (auto simp: delete_conv')
  qed
  let ?st' = "step (UpdatePosition sessionId position random) st"
  have same: "sessions ?st' = sessions st
            \<and> (\<forall>x. startTime (deref ?st' x) = startTime (deref st x)
                   \<and> isActive (deref ?st' x) = isActive (deref st x))"
  proof (cases "updateSessionPosition sessionId position random st")
    case (Inl e)
    then show ?thesis by simp
  next
    case (Inr st')
    note e = updateSessionPosition_effect[OF Inr reg ref]
    have "startTime (deref st' x) = startTime (deref st x)
        \<and> isActive (deref st' x) = isActive (deref st x)" for x
      using e(4)[of x] e(5) by (cases "x = r") simp_all
    with e(1) Inr show ?thesis by simp
  qed
  then have "sessionsToCleanup now ?st' = sessionsToCleanup now st"
    by (simp add: sessionsToCleanup_def)
  with sel once s u ev i d' fin same show ?thesis by blast
qed

theorem sweep_by_age_witness:
  "map_of (sessions demo_aged) ''s1'' = Some 0
   \<and> startTime (deref demo_aged 0) = 0
   \<and> currentPosition (deref demo_aged 0) = 1859
   \<and> isActive (deref demo_aged 0)
   \<and> sessionsToCleanup 1860000 demo_aged = [''s1'']
   \<and> sessionsToCleanup 1860000 (step (UpdatePosition ''s1'' 1860 0) demo_aged) = [''s1'']
   \<and> sessionsToCleanup 1800000 demo_aged = []
   \<and> sessions demo_swept = [(''s1'', 0)]
   \<and> isActive (deref demo_swept 0) = False
   \<and> events demo_swept = events demo_aged @ [SessionStopped ''s1'']
   \<and> unlinked demo_swept = [''/tmp/generated_music/segment_.wav'']
   \<and> inflight demo_swept = [NextSegment 0, Cleanup 0 ''s1'' (Segments Current 1)]
   \<and> sessions demo_swept_done = []
   \<and> unlinked demo_swept_done
       = [''/tmp/generated_music/segment_.wav'', ''/tmp/generated_music/segment_i.wav'',
          ''/tmp/generated_music/segment_ii.wav'',
          ''/tmp/synthesized_voice/affirmation_0_a1.wav'']
   \<and> isActive (deref demo_stopping 0) = False
   \<and> startTime (deref demo_stopping 0) = 0
   \<and> sessions demo_stopping = [(''s1'', 0)]
   \<and> sessionsToCleanup 1000 demo_stopping = [''s1'']
   \<and> sessions demo_overlap = []
   \<and> unlinked demo_overlap
       = [''/tmp/generated_music/segment_.wav'', ''/tmp/generated_music/segment_.wav'',
          ''/tmp/generated_music/segment_i.wav'', ''/tmp/generated_music/segment_i.wav'',
          ''/tmp/generated_music/segment_ii.wav'', ''/tmp/generated_music/segment_ii.wav'',
          ''/tmp/synthesized_voice/affirmation_0_a1.wav'',
          ''/tmp/synthesized_voice/affirmation_0_a1.wav'']"
proof -
  have reg: "map_of (sessions (run [Create demo_options demo_track ''s1'' 0,
          Resume 0 (InitialReply (Some demo_env)),
          Resume 0 (AffirmationsReply (Some [demo_affirmation])),
          UpdatePosition ''s1'' 1859 0] initial)) ''s1'' = Some 0"
    unfolding demo_aged_def[symmetric] by code_simp
  have s0: "startTime (deref demo_aged 0) = 0"
    and p0: "currentPosition (deref demo_aged 0) = 1859"
    and act: "isActive (deref demo_aged 0)" by code_simp+
  have ids: "sessionsToCleanup 1860000 demo_aged = [''s1'']"
    and none: "sessionsToCleanup 1800000 demo_aged = []" by code_simp+
  have before: "sessions demo_aged = [(''s1'', 0)]" "unlinked demo_aged = []"
    "inflight demo_aged = [NextSegment 0]"
    "take (Suc 0) (owned_paths (deref demo_aged 0)) = [''/tmp/generated_music/segment_.wav'']"
    "first_stage (deref demo_aged 0) = Segments Current (Suc 0)"
    by code_simp+
  have sw: "cleanupInactiveSessions 1860000 demo_aged = demo_swept"
    by (simp add: demo_swept_def)
  have finished: "sessions demo_swept_done = []"
    "unlinked demo_swept_done
       = [''/tmp/generated_music/segment_.wav'', ''/tmp/generated_music/segment_i.wav'',
          ''/tmp/generated_music/segment_ii.wav'',
          ''/tmp/synthesized_voice/affirmation_0_a1.wav'']" by code_simp+
  have stopping: "isActive (deref demo_stopping 0) = False"
    "startTime (deref demo_stopping 0) = 0"
    "sessions demo_stopping = [(''s1'', 0)]"
    "sessionsToCleanup 1000 demo_stopping = [''s1'']"
    "sessions demo_overlap = []"
    "unlinked demo_overlap
       = [''/tmp/generated_music/segment_.wav'', ''/tmp/generated_music/segment_.wav'',
          ''/tmp/generated_music/segment_i.wav'', ''/tmp/generated_music/segment_i.wav'',
          ''/tmp/generated_music/segment_ii.wav'', ''/tmp/generated_music/segment_ii.wav'',
          ''/tmp/synthesized_voice/affirmation_0_a1.wav'',
          ''/tmp/synthesized_voice/affirmation_0_a1.wav'']"
    by code_simp+
  note t = sweep_by_age[OF reg, of 1860000 1860 0, folded demo_aged_def, unfolded sw]
  from t have "sessions demo_swept = [(''s1'', 0)]"
    and "isActive (deref demo_swept 0) = False"
    and "events demo_swept = events demo_aged @ [SessionStopped ''s1'']"
    and "unlinked demo_swept = [''/tmp/generated_music/segment_.wav'']"
    and "inflight demo_swept = [NextSegment 0, Cleanup 0 ''s1'' (Segments Current 1)]"
    and "sessionsToCleanup 1860000 (step (UpdatePosition ''s1'' 1860 0) demo_aged) = [''s1'']"
    by (simp_all add: ids before)
  with reg[folded demo_aged_def] s0 p0 act ids none finished stopping show ?thesis by simp
qed

section \<open>Options at creation\<close>

lemma update_fresh_key:
  "k \<notin> fst ` set al \<Longrightarrow> AList.update k v al = al @ [(k, v)]"
  by (induction al) auto

text \<open>
  Claim C9, as the code has it. \<^verbatim>\<open>createStreamingSession\<close> checks nothing and never
  throws. Whatever the options are, it allocates a new session object and registers it
  under the generated id, active, at position 0, segment index 0 and last affirmation
  time 0, with empty buffers. An absent or zero \<^verbatim>\<open>bufferSize\<close> or
  \<^verbatim>\<open>affirmationInterval\<close> becomes 3 or 30, and every other value, a negative one too,
  is stored as it is. All other registrations stay as they were, and when the generated
  id is not yet in the table the new entry is appended to it.
\<close>

theorem create_registers_any_options:
  fixes options trackData sessionId now st
  defines "created \<equiv> createStreamingSession options trackData sessionId now st"
  defines "session \<equiv> deref (fst created) (snd created)"
  shows "snd created = length (heap st)
       \<and> length (heap (fst created)) = length (heap st) + 1
       \<and> getSession sessionId (fst created) = Some session
       \<and> (\<forall>other. other \<noteq> sessionId
             \<longrightarrow> map_of (sessions (fst created)) other = map_of (sessions st) other)
       \<and> (sessionId \<notin> fst ` set (sessions st)
             \<longrightarrow> sessions (fst created) = sessions st @ [(sessionId, snd created)])
       \<and> session_id session = sessionId
       \<and> isActive session
       \<and> currentPosition session = 0
       \<and> currentSegmentIndex session = 0
       \<and> lastAffirmationTime session = 0
       \<and> musicSegments session = []
       \<and> affirmations session = []
       \<and> startTime session = now
       \<and> totalDuration session = track_duration trackData * 60
       \<and> bufferSize session
           = (case opt_bufferSize options of None \<Rightarrow> 3 | Some b \<Rightarrow> if b = 0 then 3 else b)
       \<and> affirmationInterval session
           = (case opt_affirmationInterval options of None \<Rightarrow> 30
              | Some i \<Rightarrow> if i = 0 then 30 else i)"
proof -
  obtain st' r where c: "createStreamingSession options trackData sessionId now st = (st', r)"
    by (cases "createStreamingSession options trackData sessionId now st")
  note e = createStreamingSession_effect[OF c]
  have fst_snd: "fst created = st'" "snd created = r"
    by (simp_all add: created_def c)
  have s: "session =
           \<lparr> session_id = sessionId, userId = opt_userId options, trackId = opt_trackId options,
              isActive = True, startTime = now, currentPosition = 0,
              totalDuration = track_duration trackData * 60,
              affirmationInterval = or_default (opt_affirmationInterval options) 30,
              lastAffirmationTime = 0, musicSegments = [], affirmations = [],
              currentSegmentIndex = 0, bufferSize = or_default (opt_bufferSize options) 3 \<rparr>"
    by (simp add: session_def fst_snd deref_def e(1,2))
  have look: "map_of (sessions st') = (map_of (sessions st))(sessionId \<mapsto> r)"
    by (simp add: e(3) update_conv')
  have get: "getSession sessionId st' = Some (deref st' r)"
    by (simp add: getSession_def look)
  have app: "sessions st' = sessions st @ [(sessionId, r)]" if "sessionId \<notin> fst ` set (sessions st)"
    using that by (simp add: e(3) update_fresh_key)
  have get': "getSession sessionId st' = Some session"
    using get by (simp add: session_def fst_snd)
  show ?thesis
    unfolding fst_snd
    using e(1) get' look app
    by (simp add: s e(2) or_default_def)
qed

theorem create_registers_any_options_witness:
  "''s2'' \<notin> fst ` set (sessions initial)
   \<and> sessions demo_negative = [(''s2'', 0)]
   \<and> isActive (deref demo_negative 0)
   \<and> bufferSize (deref demo_negative 0) = - 1
   \<and> affirmationInterval (deref demo_negative 0) = - 5"
proof -
  have fresh: "''s2'' \<notin> fst ` set (sessions initial)"
    by (simp add: initial_def)
  have d: "demo_negative = fst (createStreamingSession negative_options demo_track ''s2'' 0 initial)"
    by (simp add: demo_negative_def run_def)
  have h: "length (heap initial) = 0" "sessions initial = []"
    by (simp_all add: initial_def)
  have o: "opt_bufferSize negative_options = Some (- 1)"
          "opt_affirmationInterval negative_options = Some (- 5)"
    by (simp_all add: negative_options_def)
  note t = create_registers_any_options[of negative_options demo_track "''s2''" 0 initial]
  from t have r0: "snd (createStreamingSession negative_options demo_track ''s2'' 0 initial) = 0"
    by (simp add: h)
  from t fresh have "sessions demo_negative = [(''s2'', 0)]"
    and "isActive (deref demo_negative 0)"
    and "bufferSize (deref demo_negative 0) = - 1"
    and "affirmationInterval (deref demo_negative 0) = - 5"
    unfolding r0 d[symmetric] by (simp_all add: h o)
  with fresh show ?thesis by simp
qed

text \<open>
  Claim C9 as stated fails: a request with \<^verbatim>\<open>bufferSize\<close> \<open>-1\<close> and
  \<^verbatim>\<open>affirmationInterval\<close> \<open>-5\<close> is not rejected. The session is created, registered and
  active, and it keeps both values.
\<close>

theorem create_validation_counterexample:
  "opt_bufferSize negative_options = Some (- 1)
   \<and> opt_affirmationInterval negative_options = Some (- 5)
   \<and> map_of (sessions demo_negative) ''s2'' = Some 0
   \<and> length (heap demo_negative) = 1
   \<and> isActive (deref demo_negative 0)
   \<and> bufferSize (deref demo_negative 0) = - 1
   \<and> affirmationInterval (deref demo_negative 0) = - 5
   \<and> map session_id (getUserSessions ''test-user-123'' demo_negative) = [''s2'']"
  by code_simp

section \<open>Positions are stored as given\<close>

text \<open>A background call of a creation that fails is rejected in the same way.\<close>

lemma background_outcome:
  "generateInitialSegments_outcome r services st
     = (if services = None then Rejected UnhandledErrorEvent else Fulfilled)"
  "generateAffirmationsForSession_outcome r synthesized st
     = (if synthesized = None then Rejected UnhandledErrorEvent else Fulfilled)"
  by (simp_all add: generateInitialSegments_outcome_def generateAffirmationsForSession_outcome_def
        emitted_def emit_throws_def split: option.splits)

lemma generateNextSegment_outcome_iff:
  "generateNextSegment_outcome r services st
     = (if services = None \<or> services = Some Failed then Rejected UnhandledErrorEvent
        else Fulfilled)"
proof (cases services)
  case None
  then show ?thesis
    by (simp add: generateNextSegment_outcome_def emitted_def emit_throws_def)
next
  case (Some g)
  then show ?thesis
    by (cases g)
       (simp_all add: generateNextSegment_outcome_def generateMusicSegment_def emitted_def
          emit_throws_def)
qed

text \<open>
  Claim C10 against the code. In any state that a run of the service reaches, a position
  update of a registered active session stores the position as given, whatever it is,
  and when the position is less than \<^verbatim>\<open>affirmationInterval\<close> past
  \<^verbatim>\<open>lastAffirmationTime\<close> (after a backward seek, say) it leaves
  \<^verbatim>\<open>lastAffirmationTime\<close> as it was, even above the new position, and emits nothing.
  The call does not throw before its \<^verbatim>\<open>await\<close>, and its promise is fulfilled unless the
  position crosses the growth trigger and the generation it then awaits fails: in that
  case the failure is logged, \<^verbatim>\<open>this.emit('error', ...)\<close> throws for want of a
  listener, and the promise of the update is rejected, with the position stored.
\<close>

theorem failed_generation_rejects_update:
  assumes reg: "map_of (sessions (run acts initial)) sessionId = Some r"
      and act: "isActive (deref (run acts initial) r)"
  shows "\<exists>st'. updateSessionPosition sessionId position random (run acts initial) = Inr st'
           \<and> currentPosition (deref st' r) = position
           \<and> (\<not> position - lastAffirmationTime (deref (run acts initial) r)
                    \<ge> affirmationInterval (deref (run acts initial) r)
                \<longrightarrow> lastAffirmationTime (deref st' r)
                      = lastAffirmationTime (deref (run acts initial) r)
                    \<and> events st' = events (run acts initial))
           \<and> inflight st' = inflight (run acts initial) @
                (if position \<ge> segmentEndTime (deref (run acts initial) r) - 30
                 then [NextSegment r] else [])
           \<and> updateSessionPosition_settles sessionId position random services (run acts initial)
               = (if position \<ge> segmentEndTime (deref (run acts initial) r) - 30
                     \<and> (services = None \<or> services = Some Failed)
                  then Rejected UnhandledErrorEvent else Fulfilled)
           \<and> (position \<ge> segmentEndTime (deref (run acts initial) r) - 30
                 \<and> (services = None \<or> services = Some Failed)
                \<longrightarrow> events (resume (length (inflight (run acts initial))) (NextReply services) st')
                      = events st' @ [ErrorEvent sessionId]
                    \<and> heap (resume (length (inflight (run acts initial))) (NextReply services) st')
                      = heap st')"
proof -
  let ?st = "run acts initial"
  let ?crosses = "position \<ge> segmentEndTime (deref ?st r) - 30"
  from registry_lookup[OF invariant_reachable(1) reg]
  have ref: "r < length (heap ?st)" and sid: "session_id (deref ?st r) = sessionId" by simp_all
  from updateSessionPosition_succeeds[OF reg act] obtain st' where
    upd: "updateSessionPosition sessionId position random ?st = Inr st'" by blast
  note e = updateSessionPosition_effect[OF upd reg ref]
  have pos: "currentPosition (deref st' r) = position"
    by (simp add: e(5))
  have keep: "lastAffirmationTime (deref st' r) = lastAffirmationTime (deref ?st r)
               \<and> events st' = events ?st"
    if "\<not> position - lastAffirmationTime (deref ?st r) \<ge> affirmationInterval (deref ?st r)"
    using that by (simp add: e(5,6) fires_def)
  have seg: "segmentEndTime (deref st' r) = segmentEndTime (deref ?st r)"
    by (rule segmentEndTime_cong) (simp_all add: e(5))
  have settles: "updateSessionPosition_settles sessionId position random services ?st
               = (if ?crosses \<and> (services = None \<or> services = Some Failed)
                  then Rejected UnhandledErrorEvent else Fulfilled)"
    by (simp add: updateSessionPosition_settles_def upd reg seg generateNextSegment_outcome_iff)
  have late: "events (resume (length (inflight ?st)) (NextReply services) st')
                = events st' @ [ErrorEvent sessionId]
            \<and> heap (resume (length (inflight ?st)) (NextReply services) st') = heap st'"
    if c: "?crosses \<and> (services = None \<or> services = Some Failed)"
  proof -
    from c have i: "inflight st' = inflight ?st @ [NextSegment r]" by (simp add: e(7))
    let ?rest = "st'\<lparr> inflight := take (length (inflight ?st)) (inflight st')
                                   @ drop (Suc (length (inflight ?st))) (inflight st') \<rparr>"
    have "resume (length (inflight ?st)) (NextReply services) st'
            = generateNextSegment r services ?rest"
      by (simp add: resume_def i matches_def settle_def)
    also have "\<dots> = emit (ErrorEvent (session_id (deref ?rest r))) ?rest"
      using c by (intro generateNextSegment_failed) simp
    finally have res: "resume (length (inflight ?st)) (NextReply services) st'
            = emit (ErrorEvent (session_id (deref ?rest r))) ?rest" .
    have id0: "session_id (deref ?rest r) = sessionId"
      using sid by (simp add: deref_def e(5)[unfolded deref_def])
    have "events (emit (ErrorEvent (session_id (deref ?rest r))) ?rest)
            = events st' @ [ErrorEvent sessionId]"
      by (simp add: id0)
    moreover have "heap (emit (ErrorEvent (session_id (deref ?rest r))) ?rest) = heap st'"
      by simp
    ultimately show ?thesis by (simp only: res)
  qed
  from upd pos keep e(7) settles late show ?thesis by blast
qed

theorem failed_generation_rejects_update_witness:
  "map_of (sessions demo_created) ''s1'' = Some 0
   \<and> isActive (deref demo_created 0)
   \<and> segmentEndTime (deref demo_created 0) - 30 \<le> 30
   \<and> currentPosition (deref demo_one_update 0) = 30
   \<and> inflight demo_one_update = inflight demo_created @ [NextSegment 0]
   \<and> updateSessionPosition_settles ''s1'' 30 0 (Some Failed) demo_created
       = Rejected UnhandledErrorEvent
   \<and> events (resume 2 (NextReply (Some Failed)) demo_one_update) = [ErrorEvent ''s1'']
   \<and> updateSessionPosition_settles ''s1'' (- 5) 0 (Some Failed) demo_played = Fulfilled
   \<and> currentPosition (deref (step (UpdatePosition ''s1'' (- 5) 0) demo_played) 0) = - 5
   \<and> lastAffirmationTime (deref (step (UpdatePosition ''s1'' (- 5) 0) demo_played) 0) = 60
   \<and> events (step (UpdatePosition ''s1'' (- 5) 0) demo_played) = events demo_played"
proof -
  have reg: "map_of (sessions (run [Create demo_options demo_track ''s1'' 0] initial)) ''s1'' = Some 0"
    unfolding demo_created_def[symmetric] by code_simp
  have act: "isActive (deref (run [Create demo_options demo_track ''s1'' 0] initial) 0)"
    unfolding demo_created_def[symmetric] by code_simp
  have crosses: "segmentEndTime (deref demo_created 0) - 30 \<le> 30" by code_simp
  have n: "length (inflight demo_created) = 2" and ev: "events demo_created = []" by code_simp+
  have one: "step (UpdatePosition ''s1'' 30 0) demo_created = demo_one_update"
    by (simp add: demo_one_update_def demo_created_def run_def)
  from failed_generation_rejects_update[OF reg act, of 30 0 "Some Failed", folded demo_created_def]
  obtain st' where
    u: "updateSessionPosition ''s1'' 30 0 demo_created = Inr st'" and
    f: "currentPosition (deref st' 0) = 30"
       "inflight st' = inflight demo_created @ [NextSegment 0]"
       "updateSessionPosition_settles ''s1'' 30 0 (Some Failed) demo_created
          = Rejected UnhandledErrorEvent"
       "events (resume 2 (NextReply (Some Failed)) st') = events st' @ [ErrorEvent ''s1'']"
    using crosses by (auto simp: n)
  from u one have st': "st' = demo_one_update" by simp
  have ev1: "events demo_one_update = []" by code_simp
  have first: "currentPosition (deref demo_one_update 0) = 30
     \<and> inflight demo_one_update = inflight demo_created @ [NextSegment 0]
     \<and> updateSessionPosition_settles ''s1'' 30 0 (Some Failed) demo_created
         = Rejected UnhandledErrorEvent
     \<and> events (resume 2 (NextReply (Some Failed)) demo_one_update) = [ErrorEvent ''s1'']"
    using f by (simp add: st' ev1)
  have reg2: "map_of (sessions (run [Create demo_options demo_track ''s1'' 0,
          Resume 1 (AffirmationsReply (Some [demo_affirmation])),
          UpdatePosition ''s1'' 60 0] initial)) ''s1'' = Some 0"
    unfolding demo_played_def[symmetric] by code_simp
  have act2: "isActive (deref (run [Create demo_options demo_track ''s1'' 0,
          Resume 1 (AffirmationsReply (Some [demo_affirmation])),
          UpdatePosition ''s1'' 60 0] initial) 0)"
    unfolding demo_played_def[symmetric] by code_simp
  have l: "lastAffirmationTime (deref demo_played 0) = 60" by code_simp
  have i: "affirmationInterval (deref demo_played 0) = 30" by code_simp
  have g: "segmentEndTime (deref demo_played 0) = 60" by code_simp
  from failed_generation_rejects_update[OF reg2 act2, of "- 5" 0 "Some Failed", folded demo_played_def]
  obtain st2 where "updateSessionPosition ''s1'' (- 5) 0 demo_played = Inr st2"
    "currentPosition (deref st2 0) = - 5"
    "lastAffirmationTime (deref st2 0) = lastAffirmationTime (deref demo_played 0)"
    "events st2 = events demo_played"
    "updateSessionPosition_settles ''s1'' (- 5) 0 (Some Failed) demo_played = Fulfilled"
    by (auto simp: l i g)
  then have second: "updateSessionPosition_settles ''s1'' (- 5) 0 (Some Failed) demo_played = Fulfilled
     \<and> currentPosition (deref (step (UpdatePosition ''s1'' (- 5) 0) demo_played) 0) = - 5
     \<and> lastAffirmationTime (deref (step (UpdatePosition ''s1'' (- 5) 0) demo_played) 0) = 60
     \<and> events (step (UpdatePosition ''s1'' (- 5) 0) demo_played) = events demo_played"
    by (simp add: l)
  from reg[folded demo_created_def] act[folded demo_created_def] crosses first second
  show ?thesis by simp
qed

end
